theory Spec2Isabelle
  imports Complex_Main "HOL-Library.Log_Nat" "HOL-Library.Sublist"
begin

section \<open>Python numbers used by the tool\<close>

text \<open>
  Python's \<open>int\<close> is unbounded and is modelled by \<open>int\<close>.  The operator \<open>/\<close> on two
  ints, the mixed operations \<open>int / float\<close> and \<open>int * float\<close>, and the literal \<open>0.02\<close>
  produce IEEE-754 binary64 values.  A finite binary64 value is modelled by the rational
  number it denotes; every operation computes the exact rational result and rounds it to
  the nearest binary64 value, ties to even (53 significant bits, smallest quantum
  \<open>2^-1074\<close>), as the hardware and CPython's correctly rounded \<open>int / int\<close> and
  \<open>int \<rightarrow> float\<close> conversions do.
\<close>

definition pow2 :: "int \<Rightarrow> rat" where
  "pow2 k = (if 0 \<le> k then 2 ^ nat k else 1 / 2 ^ nat (- k))"

text \<open>\<open>ilog2 q\<close> is \<open>\<lfloor>log\<^sub>2 q\<rfloor>\<close> for a positive rational \<open>q\<close>.\<close>

definition ilog2 :: "rat \<Rightarrow> int" where
  "ilog2 q = (case quotient_of q of (n, d) \<Rightarrow>
     (let k = bitlen n - bitlen d in if pow2 k \<le> q then k else k - 1))"

text \<open>Rounding to the nearest integer, ties to the even one: Python's \<open>round(f)\<close>.\<close>

definition round_half_even :: "rat \<Rightarrow> int" where
  "round_half_even q =
     (let f = \<lfloor>q\<rfloor>; r = q - of_int f
      in if r < 1 / 2 then f else if 1 / 2 < r then f + 1 else if even f then f else f + 1)"

definition double_round :: "rat \<Rightarrow> rat" where
  "double_round q =
     (if q = 0 then 0
      else (let p = max (ilog2 \<bar>q\<bar> - 52) (- 1074)
            in of_int (round_half_even (q / pow2 p)) * pow2 p))"

datatype pyfloat = Finite rat | PosInf | NegInf

definition to_double :: "rat \<Rightarrow> pyfloat" where
  "to_double q =
     (let r = double_round q
      in if pow2 1024 \<le> r then PosInf else if r \<le> - pow2 1024 then NegInf else Finite r)"

text \<open>
  The messages of the \<open>ToolError\<close>s raised in \<open>game.py\<close>, one constructor per
  \<open>raise\<close>; the formatted values of each f-string are the constructor's arguments.
\<close>

datatype pyval =
    PyInt int
  | PyBool bool
  | PyFloat rat
  | PyStr string
  | PyNone
  | PyList "pyval list"
  | PyTuple "pyval list"

datatype message =
    CoordinateRequired string
  | TextNotAccepted string
  | NotLength2 pyval
  | NotNonNegativeInts pyval
  | TextRequired string
  | CoordinateNotAccepted string
  | OutOfBounds int int
  | InvalidAction string
  | FailedScreenshot "string option"

datatype pyerror = ToolError message | ZeroDivisionError | OverflowError | ValueError

text \<open>\<open>a / b\<close> on ints: correctly rounded, \<open>OverflowError\<close> when the quotient is too
  large for a float, \<open>ZeroDivisionError\<close> when \<open>b = 0\<close>.\<close>

definition int_truediv :: "int \<Rightarrow> int \<Rightarrow> pyerror + rat" where
  "int_truediv a b =
     (if b = 0 then Inl ZeroDivisionError
      else (case to_double (of_int a / of_int b) of
              Finite r \<Rightarrow> Inr r
            | _ \<Rightarrow> Inl OverflowError))"

text \<open>The implicit conversion of the int operand in \<open>int / float\<close> and \<open>int * float\<close>.\<close>

definition float_of_int :: "int \<Rightarrow> pyerror + rat" where
  "float_of_int a =
     (case to_double (of_int a) of
        Finite r \<Rightarrow> Inr r
      | _ \<Rightarrow> Inl OverflowError)"

text \<open>\<open>x / f\<close> and \<open>x * f\<close> for an int \<open>x\<close> and a finite float \<open>f\<close>: float division
  raises on a zero divisor and otherwise, like multiplication, overflows silently to an
  infinity.\<close>

definition int_div_float :: "int \<Rightarrow> rat \<Rightarrow> pyerror + pyfloat" where
  "int_div_float x f =
     (case float_of_int x of
        Inl e \<Rightarrow> Inl e
      | Inr xf \<Rightarrow> if f = 0 then Inl ZeroDivisionError else Inr (to_double (xf / f)))"

definition int_mul_float :: "int \<Rightarrow> rat \<Rightarrow> pyerror + pyfloat" where
  "int_mul_float x f =
     (case float_of_int x of
        Inl e \<Rightarrow> Inl e
      | Inr xf \<Rightarrow> Inr (to_double (xf * f)))"

text \<open>\<open>round(f)\<close> with one argument returns an int and raises \<open>OverflowError\<close> on an
  infinity.\<close>

fun py_round :: "pyfloat \<Rightarrow> pyerror + int" where
  "py_round (Finite r) = Inr (round_half_even r)"
| "py_round PosInf = Inl OverflowError"
| "py_round NegInf = Inl OverflowError"

text \<open>\<open>abs(a - ratio) < 0.02\<close> on two finite floats.\<close>

definition abs_diff_lt_002 :: "rat \<Rightarrow> rat \<Rightarrow> bool" where
  "abs_diff_lt_002 a ratio =
     (case to_double (a - ratio) of
        Finite d \<Rightarrow> \<bar>d\<bar> < double_round (1 / 50)
      | _ \<Rightarrow> False)"

section \<open>The tool's configuration and the scaling table\<close>

datatype Resolution = Resolution (res_width: int) (res_height: int)

definition MAX_SCALING_TARGETS :: "(string \<times> Resolution) list" where
  "MAX_SCALING_TARGETS =
     [(''XGA'', Resolution 1024 768),
      (''WXGA'', Resolution 1280 800),
      (''FWXGA'', Resolution 1366 768)]"

datatype ScalingSource = COMPUTER | API

text \<open>The attributes of a \<open>GameTool\<close> instance that \<open>scale_coordinates\<close> and
  \<open>options\<close> read, with \<open>_scaling_enabled\<close>, a class attribute that is \<open>True\<close> unless
  overridden, as a field.  \<open>__init__\<close> asserts that width and height are both non-zero.\<close>

record GameTool =
  width :: int
  height :: int
  display_num :: "int option"
  scaling_enabled :: bool

text \<open>The \<open>for\<close> loop over the table's values in \<open>scale_coordinates\<close>: it leaves at the
  first entry whose ratio matches, with that entry as the target only if it is narrower
  than the configured width.\<close>

fun target_dimension :: "rat \<Rightarrow> int \<Rightarrow> Resolution list \<Rightarrow> pyerror + Resolution option" where
  "target_dimension ratio w [] = Inr None"
| "target_dimension ratio w (dimension # rest) =
     (case int_truediv (res_width dimension) (res_height dimension) of
        Inl e \<Rightarrow> Inl e
      | Inr a \<Rightarrow>
          if abs_diff_lt_002 a ratio
          then Inr (if res_width dimension < w then Some dimension else None)
          else target_dimension ratio w rest)"

definition select_target :: "GameTool \<Rightarrow> pyerror + Resolution option" where
  "select_target self =
     (case int_truediv (width self) (height self) of
        Inl e \<Rightarrow> Inl e
      | Inr ratio \<Rightarrow> target_dimension ratio (width self) (map snd MAX_SCALING_TARGETS))"

definition scale_up :: "int \<Rightarrow> rat \<Rightarrow> pyerror + int" where
  "scale_up x factor =
     (case int_div_float x factor of Inl e \<Rightarrow> Inl e | Inr q \<Rightarrow> py_round q)"

definition scale_down :: "int \<Rightarrow> rat \<Rightarrow> pyerror + int" where
  "scale_down x factor =
     (case int_mul_float x factor of Inl e \<Rightarrow> Inl e | Inr q \<Rightarrow> py_round q)"

definition scale_coordinates ::
  "GameTool \<Rightarrow> ScalingSource \<Rightarrow> int \<Rightarrow> int \<Rightarrow> pyerror + (int \<times> int)" where
  "scale_coordinates self source x y =
     (if \<not> scaling_enabled self then Inr (x, y)
      else (case select_target self of
        Inl e \<Rightarrow> Inl e
      | Inr None \<Rightarrow> Inr (x, y)
      | Inr (Some target) \<Rightarrow>
         (case int_truediv (res_width target) (width self) of
            Inl e \<Rightarrow> Inl e
          | Inr x_scaling_factor \<Rightarrow>
         (case int_truediv (res_height target) (height self) of
            Inl e \<Rightarrow> Inl e
          | Inr y_scaling_factor \<Rightarrow>
             if source = API then
               (if x > width self \<or> y > height self then Inl (ToolError (OutOfBounds x y))
                else (case scale_up x x_scaling_factor of
                        Inl e \<Rightarrow> Inl e
                      | Inr x' \<Rightarrow>
                     (case scale_up y y_scaling_factor of
                        Inl e \<Rightarrow> Inl e
                      | Inr y' \<Rightarrow> Inr (x', y'))))
             else
               (case scale_down x x_scaling_factor of
                  Inl e \<Rightarrow> Inl e
                | Inr x' \<Rightarrow>
               (case scale_down y y_scaling_factor of
                  Inl e \<Rightarrow> Inl e
                | Inr y' \<Rightarrow> Inr (x', y')))))))"

section \<open>Strings\<close>

text \<open>
  A Python \<open>str\<close> is modelled by a \<open>string\<close>.  \<open>lower\<close> is \<open>str.lower\<close> on ASCII text: the
  26 capital letters map to their small letters and every other character is unchanged
  (Python additionally case-maps letters outside ASCII, which no key name of this tool
  contains).  Python's \<open>a in b\<close> on two strings is \<^const>\<open>sublist\<close> (a contiguous
  substring, the empty string included) and \<open>b.startswith(a)\<close> is \<^const>\<open>prefix\<close>.
\<close>

definition lower_char :: "char \<Rightarrow> char" where
  "lower_char c =
     (case map_of (zip ''ABCDEFGHIJKLMNOPQRSTUVWXYZ'' ''abcdefghijklmnopqrstuvwxyz'') c of
        Some d \<Rightarrow> d
      | None \<Rightarrow> c)"

definition lower :: "string \<Rightarrow> string" where
  "lower s = map lower_char s"

text \<open>\<open>s.split(c)\<close> for a one-character separator: never empty.\<close>

fun split :: "char \<Rightarrow> string \<Rightarrow> string list" where
  "split c [] = [[]]"
| "split c (x # xs) =
     (if x = c then [] # split c xs
      else (case split c xs of
              [] \<Rightarrow> [[x]]
            | w # ws \<Rightarrow> (x # w) # ws))"

text \<open>\<open>range(0, stop, step)\<close> for a positive step, and the slice \<open>s[i : j]\<close> for
  \<open>0 \<le> i \<le> j\<close>.\<close>

definition range_step :: "nat \<Rightarrow> nat \<Rightarrow> nat list" where
  "range_step stop step = map (\<lambda>k. k * step) [0 ..< (stop + step - 1) div step]"

definition slice :: "'a list \<Rightarrow> nat \<Rightarrow> nat \<Rightarrow> 'a list" where
  "slice s i j = take (j - i) (drop i s)"

text \<open>\<open>chunks\<close>: the list comprehension over \<open>range(0, len(s), chunk_size)\<close>.  A zero
  step makes \<open>range\<close> raise \<open>ValueError\<close>; a negative step gives an empty range.\<close>

definition chunks :: "'a list \<Rightarrow> int \<Rightarrow> pyerror + 'a list list" where
  "chunks s chunk_size =
     (if chunk_size = 0 then Inl ValueError
      else if chunk_size < 0 then Inr []
      else Inr (map (\<lambda>i. slice s i (i + nat chunk_size))
                  (range_step (length s) (nat chunk_size))))"

definition TYPING_DELAY_MS :: int where "TYPING_DELAY_MS = 12"

definition TYPING_GROUP_SIZE :: int where "TYPING_GROUP_SIZE = 50"

section \<open>Results, input events and the environment\<close>

text \<open>The texts the tool puts into \<open>ToolResult.output\<close>, one constructor per f-string,
  and the raw standard output of a shell command.  The field \<open>output\<close> is named
  \<open>output_text\<close> below.\<close>

datatype outtext =
    MovedMouseTo int int
  | DraggedMouseTo int int
  | PressedKey string
  | Typed string
  | Performed string
  | CursorAt int int
  | Stdout string

text \<open>Modelled from the spec: \<open>ToolResult\<close> of \<open>tools/base.py\<close>, which is not among the
  sources: "\<open>{output: optional string, error: optional string, base64_image: optional
  string}\<close>", with \<open>replace\<close> a copy with the given field replaced.\<close>

record ToolResult =
  output_text :: "outtext option"
  error :: "string option"
  base64_image :: "string option"

definition result_output :: "outtext \<Rightarrow> ToolResult" where
  "result_output t = \<lparr>output_text = Some t, error = None, base64_image = None\<rparr>"

text \<open>The two command lines \<open>screenshot\<close> passes to the shell: the \<open>convert \<dots> -resize
  WxH!\<close> call with its two numbers, and the \<open>screencapture\<close> call.\<close>

datatype command = ConvertResize int int | Screencapture

text \<open>The calls into \<open>pyautogui\<close> and the shell that a tool call makes, in order.  The
  interval of \<open>Write\<close> is a float.\<close>

datatype event =
    MoveTo int int
  | DragTo int int
  | KeyDown string
  | Sleep int
  | KeyUp string
  | Press string
  | Write string rat
  | MouseDown
  | MouseUp
  | Click
  | RightClick
  | MiddleClick
  | DoubleClick
  | Run command

text \<open>What the tool reads from outside: the pointer position reported by
  \<open>pyautogui.position()\<close>; standard output and standard error of a shell command
  (Modelled from the spec: \<open>run\<close> of \<open>tools/run.py\<close>, not among the sources,
  "\<open>runShellCommand(cmd) -> (exitStatus, stdout, stderr)\<close>"); and the base64 text of
  the screenshot file if it exists when \<open>screenshot\<close> looks for it.\<close>

record environment =
  cursor :: "int \<times> int"
  shell_out :: "command \<Rightarrow> string \<times> string"
  screenshot_file :: "string option"

section \<open>The tool's operations\<close>



text \<open>\<open>shell(command, take_screenshot=False)\<close>.\<close>

definition shell :: "environment \<Rightarrow> command \<Rightarrow> event list \<times> ToolResult" where
  "shell env cmd =
     ([Run cmd],
      \<lparr>output_text = Some (Stdout (fst (shell_out env cmd))),
        error = Some (snd (shell_out env cmd)),
        base64_image = None\<rparr>)"

definition screenshot :: "GameTool \<Rightarrow> environment \<Rightarrow> event list \<times> (pyerror + ToolResult)" where
  "screenshot self env =
     (let resize = shell env (ConvertResize (width self) (height self));
          capture = shell env Screencapture;
          result = snd capture;
          events = fst resize @ fst capture
      in case (if scaling_enabled self
               then (case scale_coordinates self COMPUTER (width self) (height self) of
                       Inl e \<Rightarrow> Inl e
                     | Inr (x, y) \<Rightarrow> Inr (fst (shell env (ConvertResize x y))))
               else Inr []) of
           Inl e \<Rightarrow> (events, Inl e)
         | Inr resized \<Rightarrow>
             (events @ resized,
              case screenshot_file env of
                Some b64 \<Rightarrow> Inr (result\<lparr>base64_image := Some b64\<rparr>)
              | None \<Rightarrow> Inl (ToolError (FailedScreenshot (error result)))))"

text \<open>The validation of a coordinate in the pointer-motion branch.  \<open>isinstance(i, int)\<close>
  holds of a Python \<open>bool\<close> as well, and \<open>True >= 0\<close>, \<open>False >= 0\<close> both hold.\<close>

fun is_list_of_2 :: "pyval \<Rightarrow> bool" where
  "is_list_of_2 (PyList xs) = (length xs = 2)"
| "is_list_of_2 _ = False"

fun items :: "pyval \<Rightarrow> pyval list" where
  "items (PyList xs) = xs"
| "items (PyTuple xs) = xs"
| "items (PyStr s) = map (\<lambda>c. PyStr [c]) s"
| "items _ = []"

fun non_negative_int :: "pyval \<Rightarrow> bool" where
  "non_negative_int (PyInt n) = (0 \<le> n)"
| "non_negative_int (PyBool b) = True"
| "non_negative_int _ = False"

fun int_value :: "pyval \<Rightarrow> int" where
  "int_value (PyInt n) = n"
| "int_value (PyBool b) = (if b then 1 else 0)"
| "int_value _ = 0"

definition pointer_motion ::
  "GameTool \<Rightarrow> string \<Rightarrow> string option \<Rightarrow> pyval option \<Rightarrow> event list \<times> (pyerror + ToolResult)" where
  "pointer_motion self action text coordinate =
     (case coordinate of
        None \<Rightarrow> ([], Inl (ToolError (CoordinateRequired action)))
      | Some c \<Rightarrow>
          if text \<noteq> None then ([], Inl (ToolError (TextNotAccepted action)))
          else if \<not> is_list_of_2 c then ([], Inl (ToolError (NotLength2 c)))
          else if \<not> list_all non_negative_int (items c)
            then ([], Inl (ToolError (NotNonNegativeInts c)))
          else (case scale_coordinates self API (int_value (items c ! 0)) (int_value (items c ! 1)) of
                  Inl e \<Rightarrow> ([], Inl e)
                | Inr (x, y) \<Rightarrow>
                    if action = ''mouse_move''
                    then ([MoveTo x y], Inr (result_output (MovedMouseTo x y)))
                    else ([DragTo x y], Inr (result_output (DraggedMouseTo x y)))))"

definition key_events :: "string \<Rightarrow> event list" where
  "key_events text =
     (if sublist (lower text) ''wasd''
        then [KeyDown (lower text), Sleep 1, KeyUp (lower text)]
      else if sublist (lower text) ''abcdefghijklmnopqrstuvwxyz''
        then [Press (lower text)]
      else if sublist text ''1234567890''
        then [Press text]
      else if lower text = ''return''
        then [Press ''enter'']
      else if lower text \<in> set [''right-arrow'', ''right'', ''left-arrow'', ''left'',
                                 ''up-arrow'', ''up'', ''down-arrow'', ''down'']
        then [Press (lower (hd (split CHR ''-'' text)))]
      else [Press (lower text)])"

text \<open>\<open>TYPING_DELAY_MS/1000\<close>, a division of two non-zero int constants.\<close>

definition typing_interval :: rat where
  "typing_interval = double_round (of_int TYPING_DELAY_MS / 1000)"

definition key_text ::
  "GameTool \<Rightarrow> environment \<Rightarrow> string \<Rightarrow> string option \<Rightarrow> pyval option
     \<Rightarrow> event list \<times> (pyerror + ToolResult)" where
  "key_text self env action text coordinate =
     (case text of
        None \<Rightarrow> ([], Inl (ToolError (TextRequired action)))
      | Some t \<Rightarrow>
          if coordinate \<noteq> None then ([], Inl (ToolError (CoordinateNotAccepted action)))
          else if action = ''key''
            then (key_events t, Inr (result_output (PressedKey t)))
          else (case chunks t TYPING_GROUP_SIZE of
                  Inl e \<Rightarrow> ([], Inl e)
                | Inr cs \<Rightarrow>
                    (let typed = map (\<lambda>chunk. Write chunk typing_interval) cs;
                         shot = screenshot self env
                     in (typed @ fst shot,
                         case snd shot of
                           Inl e \<Rightarrow> Inl e
                         | Inr r \<Rightarrow>
                             Inr \<lparr>output_text = Some (Typed t), error = None,
                                  base64_image = base64_image r\<rparr>))))"

definition click_capture ::
  "GameTool \<Rightarrow> environment \<Rightarrow> string \<Rightarrow> string option \<Rightarrow> pyval option
     \<Rightarrow> event list \<times> (pyerror + ToolResult)" where
  "click_capture self env action text coordinate =
     (if text \<noteq> None then ([], Inl (ToolError (TextNotAccepted action)))
      else if coordinate \<noteq> None then ([], Inl (ToolError (CoordinateNotAccepted action)))
      else if action = ''screenshot'' then screenshot self env
      else if action = ''cursor_position''
        then (case scale_coordinates self COMPUTER (fst (cursor env)) (snd (cursor env)) of
                Inl e \<Rightarrow> ([], Inl e)
              | Inr (x, y) \<Rightarrow> ([], Inr (result_output (CursorAt x y))))
      else ([if action = ''left_click'' then Click
             else if action = ''right_click'' then RightClick
             else if action = ''middle_click'' then MiddleClick
             else DoubleClick],
            Inr (result_output (Performed action))))"

text \<open>The last block of \<open>__call__\<close>, reached by every action that none of the three
  blocks above handles.  It reads neither \<open>text\<close> nor \<open>coordinate\<close>.\<close>

definition game_control :: "string \<Rightarrow> event list \<times> (pyerror + ToolResult)" where
  "game_control action =
     (if action = ''left_down'' then ([MouseDown], Inr (result_output (Performed action)))
      else if action = ''left_up'' then ([MouseUp], Inr (result_output (Performed action)))
      else if prefix ''hold_arrow_'' action
        then ([KeyDown (last (split CHR ''_'' action))], Inr (result_output (Performed action)))
      else if prefix ''release_arrow_'' action
        then ([KeyUp (last (split CHR ''_'' action))], Inr (result_output (Performed action)))
      else ([], Inl (ToolError (InvalidAction action))))"

text \<open>\<open>GameTool.__call__\<close>: the events performed, in order, and the result returned or
  the exception raised.  \<open>text\<close> is \<open>None\<close> or a string, as its annotation says;
  \<open>coordinate\<close> is \<open>None\<close> or any value, since the code inspects its type.\<close>

definition call ::
  "GameTool \<Rightarrow> environment \<Rightarrow> string \<Rightarrow> string option \<Rightarrow> pyval option
     \<Rightarrow> event list \<times> (pyerror + ToolResult)" where
  "call self env action text coordinate =
     (if action \<in> set [''mouse_move'', ''left_click_drag'']
        then pointer_motion self action text coordinate
      else if action \<in> set [''key'', ''type'']
        then key_text self env action text coordinate
      else if action \<in> set [''left_click'', ''right_click'', ''double_click'',
                              ''middle_click'', ''screenshot'', ''cursor_position'']
        then click_capture self env action text coordinate
      else game_control action)"

section \<open>Example inputs\<close>

definition example_env :: environment where
  "example_env =
     \<lparr>cursor = (0, 0), shell_out = (\<lambda>c. ([], [])), screenshot_file = Some ''aGk=''\<rparr>"

definition unscaled_tool :: GameTool where
  "unscaled_tool =
     \<lparr>width = 1920, height = 1080, display_num = None, scaling_enabled = False\<rparr>"

definition hd_tool :: GameTool where
  "hd_tool = \<lparr>width = 1280, height = 720, display_num = None, scaling_enabled = True\<rparr>"

definition scaled_tool :: GameTool where
  "scaled_tool =
     \<lparr>width = 2048, height = 1536, display_num = None, scaling_enabled = True\<rparr>"

definition xga_tool :: GameTool where
  "xga_tool = \<lparr>width = 1024, height = 768, display_num = None, scaling_enabled = True\<rparr>"


definition wide_tool :: GameTool where
  "wide_tool =
     \<lparr>width = 12738817945577668, height = 9554113459183251, display_num = None,
      scaling_enabled = True\<rparr>"

section \<open>Predicates used to state the properties\<close>

text \<open>The test of the loop in \<open>scale_coordinates\<close> for one table entry: the configured
  ratio can be computed and the entry's ratio is within \<open>0.02\<close> of it, in floats.\<close>

definition ratio_matches :: "GameTool \<Rightarrow> Resolution \<Rightarrow> bool" where
  "ratio_matches self dimension =
     (case int_truediv (width self) (height self) of
        Inl e \<Rightarrow> False
      | Inr ratio \<Rightarrow>
          (case int_truediv (res_width dimension) (res_height dimension) of
             Inl e \<Rightarrow> False
           | Inr a \<Rightarrow> abs_diff_lt_002 a ratio))"


section \<open>Facts about the rounding of floats\<close>

lemma pow2_powi: "pow2 k = 2 powi k"
  by (simp add: pow2_def power_int_def inverse_eq_divide power_one_over)

lemma pow2_pos: "0 < pow2 k"
  by (simp add: pow2_powi)

lemma pow2_add: "pow2 (a + b) = pow2 a * pow2 b"
  by (simp add: pow2_powi power_int_add)

lemma pow2_diff: "pow2 (a - b) = pow2 a / pow2 b"
  by (simp add: pow2_powi power_int_diff)

lemma pow2_mono: "a \<le> b \<Longrightarrow> pow2 a \<le> pow2 b"
  by (simp add: pow2_powi power_int_increasing)

lemma pow2_strict_mono: "a < b \<Longrightarrow> pow2 a < pow2 b"
  by (simp add: pow2_powi power_int_strict_increasing)

lemma pow2_less_cancel: "pow2 a < pow2 b \<Longrightarrow> a < b"
  using pow2_mono [of b a] by (cases "a < b") auto

lemma bitlen_rat_bounds:
  assumes "0 < n"
  shows "pow2 (bitlen n - 1) \<le> of_int n" and "of_int n < pow2 (bitlen n)"
proof -
  from bitlen_bounds [OF assms]
  have lo: "2 ^ nat (bitlen n - 1) \<le> n" and hi: "n < 2 ^ nat (bitlen n)" by auto
  have ge1: "1 \<le> bitlen n" using assms by (auto simp: bitlen_alt_def)
  have "(of_int (2 ^ nat (bitlen n - 1)) :: rat) \<le> of_int n" using lo by (simp only: of_int_le_iff)
  then show "pow2 (bitlen n - 1) \<le> of_int n" using ge1 by (simp add: pow2_def)
  have "(of_int n :: rat) < of_int (2 ^ nat (bitlen n))" using hi by (simp only: of_int_less_iff)
  then show "of_int n < pow2 (bitlen n)" using ge1 by (simp add: pow2_def)
qed

lemma ilog2_bounds:
  assumes "0 < q"
  shows "pow2 (ilog2 q) \<le> q \<and> q < pow2 (ilog2 q + 1)"
proof -
  obtain n d where nd: "quotient_of q = (n, d)" by (cases "quotient_of q")
  have dpos: "0 < d" using nd by (rule quotient_of_denom_pos)
  have q: "q = of_int n / of_int d" using nd by (rule quotient_of_div)
  have npos: "0 < n" using assms dpos q by (simp add: zero_less_divide_iff)
  define k where "k = bitlen n - bitlen d"
  have d1: "pow2 (bitlen d - 1) \<le> of_int d" and d2: "of_int d < pow2 (bitlen d)"
    using bitlen_rat_bounds [OF dpos] by auto
  have n1: "pow2 (bitlen n - 1) \<le> of_int n" and n2: "of_int n < pow2 (bitlen n)"
    using bitlen_rat_bounds [OF npos] by auto
  have dq: "(0::rat) < of_int d" using dpos by simp
  have up: "q < pow2 (k + 1)"
  proof -
    have "of_int n < pow2 (bitlen n)" by (rule n2)
    also have "\<dots> = pow2 (k + 1) * pow2 (bitlen d - 1)"
      by (simp add: k_def pow2_add [symmetric])
    also have "\<dots> \<le> pow2 (k + 1) * of_int d"
      using d1 pow2_pos [of "k + 1"] by (simp add: mult_left_mono)
    finally show ?thesis using dq by (simp add: q pos_divide_less_eq)
  qed
  have lo: "pow2 (k - 1) < q"
  proof -
    have "pow2 (k - 1) * of_int d < pow2 (k - 1) * pow2 (bitlen d)"
      using d2 pow2_pos [of "k - 1"] by (simp add: mult_strict_left_mono)
    also have "\<dots> = pow2 (bitlen n - 1)"
      by (simp add: k_def pow2_add [symmetric])
    also have "\<dots> \<le> of_int n" by (rule n1)
    finally show ?thesis using dq by (simp add: q pos_less_divide_eq)
  qed
  show ?thesis
  proof (cases "pow2 k \<le> q")
    case True
    then have "ilog2 q = k" by (simp add: ilog2_def nd k_def Let_def)
    with True up show ?thesis by simp
  next
    case False
    then have "ilog2 q = k - 1" by (simp add: ilog2_def nd k_def Let_def)
    with False lo show ?thesis by simp
  qed
qed

lemma ilog2_unique:
  assumes "0 < q" "pow2 e \<le> q" "q < pow2 (e + 1)"
  shows "ilog2 q = e"
proof -
  from ilog2_bounds [OF assms(1)]
  have a: "pow2 (ilog2 q) \<le> q" and b: "q < pow2 (ilog2 q + 1)" by auto
  have "pow2 e < pow2 (ilog2 q + 1)" using assms(2) b by simp
  then have 1: "e < ilog2 q + 1" by (rule pow2_less_cancel)
  have "pow2 (ilog2 q) < pow2 (e + 1)" using a assms(3) by simp
  then have 2: "ilog2 q < e + 1" by (rule pow2_less_cancel)
  from 1 2 show ?thesis by simp
qed

lemma round_half_even_error: "\<bar>of_int (round_half_even q) - q\<bar> \<le> 1 / 2"
proof -
  have "of_int \<lfloor>q\<rfloor> \<le> q" "q < of_int \<lfloor>q\<rfloor> + 1" by linarith+
  then show ?thesis
    by (auto simp: round_half_even_def Let_def)
qed

lemma round_half_even_of_int [simp]: "round_half_even (of_int n) = n"
  by (simp add: round_half_even_def)


lemma double_round_eval:
  assumes "q \<noteq> 0" "pow2 e \<le> \<bar>q\<bar>" "\<bar>q\<bar> < pow2 (e + 1)"
  shows "double_round q =
    of_int (round_half_even (q / pow2 (max (e - 52) (- 1074)))) * pow2 (max (e - 52) (- 1074))"
proof -
  have "ilog2 \<bar>q\<bar> = e" using assms by (intro ilog2_unique) auto
  then show ?thesis using assms(1) by (simp add: double_round_def Let_def)
qed

lemma double_round_zero [simp]: "double_round 0 = 0"
  by (simp add: double_round_def)

lemma double_round_quantum_error:
  assumes "q \<noteq> 0"
  shows "\<bar>double_round q - q\<bar> \<le> pow2 (max (ilog2 \<bar>q\<bar> - 52) (- 1074) - 1)"
proof -
  define p where "p = max (ilog2 \<bar>q\<bar> - 52) (- 1074)"
  have P: "0 < pow2 p" by (rule pow2_pos)
  have dr: "double_round q = of_int (round_half_even (q / pow2 p)) * pow2 p"
    using assms by (simp add: double_round_def Let_def p_def)
  have "double_round q - q = (of_int (round_half_even (q / pow2 p)) - q / pow2 p) * pow2 p"
    using P by (simp add: dr algebra_simps)
  then have "\<bar>double_round q - q\<bar> = \<bar>of_int (round_half_even (q / pow2 p)) - q / pow2 p\<bar> * pow2 p"
    using P by (simp add: abs_mult)
  also have "\<dots> \<le> (1 / 2) * pow2 p"
    using round_half_even_error [of "q / pow2 p"] P by (intro mult_right_mono) auto
  also have "\<dots> = pow2 (p - 1)"
    by (simp add: pow2_diff) (simp add: pow2_def)
  finally show ?thesis by (simp add: p_def)
qed

lemma double_round_error:
  "\<bar>double_round q - q\<bar> \<le> \<bar>q\<bar> * pow2 (- 53) + pow2 (- 1075)"
proof (cases "q = 0")
  case True
  then show ?thesis using pow2_pos [of "- 1075"] by simp
next
  case False
  then have qpos: "0 < \<bar>q\<bar>" by simp
  define e where "e = ilog2 \<bar>q\<bar>"
  have lo: "pow2 e \<le> \<bar>q\<bar>" using ilog2_bounds [OF qpos] by (simp add: e_def)
  have err: "\<bar>double_round q - q\<bar> \<le> pow2 (max (e - 52) (- 1074) - 1)"
    using double_round_quantum_error [OF False] by (simp add: e_def)
  show ?thesis
  proof (cases "- 1074 \<le> e - 52")
    case True
    then have "max (e - 52) (- 1074) - 1 = e + (- 53)" by simp
    then have "pow2 (max (e - 52) (- 1074) - 1) = pow2 e * pow2 (- 53)"
      by (simp only: pow2_add)
    also have "\<dots> \<le> \<bar>q\<bar> * pow2 (- 53)"
      using lo pow2_pos [of "- 53"] by (intro mult_right_mono) auto
    finally show ?thesis using err pow2_pos [of "- 1075"] by linarith
  next
    case False
    then have "max (e - 52) (- 1074) - 1 = - 1075" by simp
    then show ?thesis using err qpos pow2_pos [of "- 53"]
      by (metis add_increasing mult_nonneg_nonneg abs_ge_zero less_imp_le)
  qed
qed

lemma double_round_exact:
  assumes "\<bar>m\<bar> < 2 ^ 53" "- 1074 \<le> k"
  shows "double_round (of_int m * pow2 k) = of_int m * pow2 k"
proof (cases "m = 0")
  case True then show ?thesis by simp
next
  case False
  define q where "q = (of_int m :: rat) * pow2 k"
  have q0: "q \<noteq> 0" using False pow2_pos [of k] by (simp add: q_def)
  then have qpos: "0 < \<bar>q\<bar>" by simp
  define e where "e = ilog2 \<bar>q\<bar>"
  define p where "p = max (e - 52) (- 1074)"
  have "(of_int \<bar>m\<bar> :: rat) < of_int (2 ^ 53)" using assms(1) by (simp only: of_int_less_iff)
  then have "\<bar>of_int m :: rat\<bar> < pow2 53" by (simp add: pow2_def)
  then have "\<bar>q\<bar> < pow2 53 * pow2 k"
    using pow2_pos [of k] by (simp add: q_def abs_mult)
  then have "\<bar>q\<bar> < pow2 (53 + k)" by (simp add: pow2_add)
  moreover have "pow2 e \<le> \<bar>q\<bar>" using ilog2_bounds [OF qpos] by (simp add: e_def)
  ultimately have "pow2 e < pow2 (53 + k)" by simp
  then have "e < 53 + k" by (rule pow2_less_cancel)
  then have pk: "p \<le> k" using assms(2) by (simp add: p_def)
  have "q / pow2 p = of_int m * pow2 (k - p)" by (simp add: q_def pow2_diff)
  also have "\<dots> = of_int (m * 2 ^ nat (k - p))" using pk by (simp add: pow2_def)
  finally have "round_half_even (q / pow2 p) = m * 2 ^ nat (k - p)"
    by (simp only: round_half_even_of_int)
  then have "double_round q = of_int (m * 2 ^ nat (k - p)) * pow2 p"
    using q0 by (simp add: double_round_def Let_def p_def e_def)
  also have "\<dots> = of_int m * pow2 (k - p) * pow2 p" using pk by (simp add: pow2_def)
  also have "\<dots> = q" using pow2_pos [of p] by (simp add: q_def pow2_diff)
  finally show ?thesis by (simp add: q_def)
qed

lemma double_round_of_int:
  "\<bar>m\<bar> < 2 ^ 53 \<Longrightarrow> double_round (of_int m) = of_int m"
  using double_round_exact [of m 0] by (simp add: pow2_def)

lemma double_round_rel:
  assumes "pow2 (- 1022) \<le> \<bar>q\<bar>"
  shows "\<bar>double_round q - q\<bar> \<le> \<bar>q\<bar> * pow2 (- 53)"
proof -
  have qpos: "0 < \<bar>q\<bar>" using assms pow2_pos [of "- 1022"] by linarith
  then have q0: "q \<noteq> 0" by auto
  define e where "e = ilog2 \<bar>q\<bar>"
  have lo: "pow2 e \<le> \<bar>q\<bar>" and hi: "\<bar>q\<bar> < pow2 (e + 1)"
    using ilog2_bounds [OF qpos] by (simp_all add: e_def)
  have "pow2 (- 1022) < pow2 (e + 1)" using assms hi by simp
  then have "- 1022 < e + 1" by (rule pow2_less_cancel)
  then have m: "max (e - 52) (- 1074) - 1 = e + (- 53)" by simp
  have "\<bar>double_round q - q\<bar> \<le> pow2 (max (e - 52) (- 1074) - 1)"
    using double_round_quantum_error [OF q0] by (simp add: e_def)
  also have "\<dots> = pow2 e * pow2 (- 53)" by (simp only: m pow2_add)
  also have "\<dots> \<le> \<bar>q\<bar> * pow2 (- 53)"
    using lo pow2_pos [of "- 53"] by (intro mult_right_mono) auto
  finally show ?thesis .
qed

lemma double_round_weak: "\<bar>double_round q - q\<bar> \<le> (\<bar>q\<bar> + 1) / 2 ^ 53"
proof -
  have "pow2 (- 1075) \<le> pow2 (- 53)" by (rule pow2_mono) simp
  with double_round_error [of q]
  have "\<bar>double_round q - q\<bar> \<le> \<bar>q\<bar> * pow2 (- 53) + pow2 (- 53)" by linarith
  then show ?thesis by (simp add: pow2_def algebra_simps add_divide_distrib)
qed

lemma to_double_finite:
  assumes "\<bar>q\<bar> \<le> pow2 1023"
  shows "to_double q = Finite (double_round q)"
proof -
  have a: "pow2 1023 * pow2 (- 53) = pow2 970" by (simp add: pow2_add [symmetric])
  have b: "pow2 (- 1075) \<le> pow2 970" by (rule pow2_mono) simp
  have c: "pow2 970 + pow2 970 = pow2 971"
    using pow2_add [of 970 1] by (simp add: pow2_def)
  have d: "pow2 971 < pow2 1023" by (rule pow2_strict_mono) simp
  have e: "pow2 1023 + pow2 1023 = pow2 1024"
    using pow2_add [of 1023 1] by (simp add: pow2_def)
  have "\<bar>q\<bar> * pow2 (- 53) \<le> pow2 1023 * pow2 (- 53)"
    using assms pow2_pos [of "- 53"] by (intro mult_right_mono) auto
  with double_round_error [of q] a b
  have "\<bar>double_round q - q\<bar> \<le> pow2 970 + pow2 970" by linarith
  with c d have "\<bar>double_round q - q\<bar> < pow2 1023" by linarith
  with assms e have "\<bar>double_round q\<bar> < pow2 1024" by linarith
  then show ?thesis by (auto simp: to_double_def Let_def)
qed

lemma pow2_1023_ge: "2 ^ 53 \<le> pow2 1023"
proof -
  have "pow2 53 \<le> pow2 1023" by (rule pow2_mono) simp
  then show ?thesis by (simp add: pow2_def)
qed

lemma int_truediv_ok:
  assumes "b \<noteq> 0" "\<bar>of_int a / of_int b :: rat\<bar> \<le> 2 ^ 53"
  shows "int_truediv a b = Inr (double_round (of_int a / of_int b))"
proof -
  have "\<bar>of_int a / of_int b :: rat\<bar> \<le> pow2 1023" using assms(2) pow2_1023_ge by linarith
  then show ?thesis using assms(1) by (simp add: int_truediv_def to_double_finite)
qed

lemma int_truediv_Inr:
  assumes "int_truediv a b = Inr r"
  shows "b \<noteq> 0" and "r = double_round (of_int a / of_int b)"
  using assms
  by (auto simp: int_truediv_def to_double_def Let_def split: if_splits pyfloat.splits)

lemma float_of_int_exact:
  assumes "\<bar>x\<bar> < 2 ^ 53"
  shows "float_of_int x = Inr (of_int x)"
proof -
  have "(of_int \<bar>x\<bar> :: rat) \<le> of_int (2 ^ 53)" using assms by (simp only: of_int_le_iff)
  then have "\<bar>of_int x :: rat\<bar> \<le> pow2 1023" using pow2_1023_ge by simp
  then show ?thesis using assms by (simp add: float_of_int_def to_double_finite double_round_of_int)
qed

lemma floor_numeral_div [simp]:
  "\<lfloor>numeral a / numeral b :: rat\<rfloor> = numeral a div numeral b"
  using floor_divide_of_int_eq [of "numeral a" "numeral b", where ?'a = rat] by simp

lemma double_round_002: "double_round (1 / 50) = 5764607523034235 / 288230376151711744"
proof -
  have "double_round (1 / 50) =
    of_int (round_half_even ((1 / 50) / pow2 (max (- 6 - 52) (- 1074)))) * pow2 (max (- 6 - 52) (- 1074))"
    by (rule double_round_eval) (simp_all add: pow2_def)
  also have "\<dots> = 5764607523034235 / 288230376151711744"
    by (simp add: pow2_def round_half_even_def Let_def)
  finally show ?thesis .
qed

lemma abs_diff_self: "abs_diff_lt_002 a a"
  using pow2_pos [of 1024] by (simp add: abs_diff_lt_002_def to_double_def double_round_002)

lemma abs_diff_close:
  assumes "\<bar>a - r\<bar> \<le> 19 / 1000"
  shows "abs_diff_lt_002 a r"
proof -
  have "(19 / 1000 :: rat) \<le> 2 ^ 53" by simp
  then have fin: "to_double (a - r) = Finite (double_round (a - r))"
    using assms pow2_1023_ge by (intro to_double_finite) linarith
  have "\<bar>double_round (a - r) - (a - r)\<bar> \<le> (\<bar>a - r\<bar> + 1) / 2 ^ 53" by (rule double_round_weak)
  also have "\<dots> \<le> (19 / 1000 + 1) / 2 ^ 53" using assms by (simp add: divide_right_mono)
  finally have "\<bar>double_round (a - r)\<bar> \<le> 19 / 1000 + (19 / 1000 + 1) / 2 ^ 53"
    using assms by linarith
  also have "\<dots> < 5764607523034235 / 288230376151711744" by simp
  finally show ?thesis by (simp add: abs_diff_lt_002_def fin double_round_002)
qed

lemma abs_diff_lt_002_D:
  assumes "abs_diff_lt_002 a r"
  shows "\<bar>a - r\<bar> \<le> 21 / 1000"
proof (rule ccontr)
  assume "\<not> \<bar>a - r\<bar> \<le> 21 / 1000"
  then have big: "21 / 1000 < \<bar>a - r\<bar>" by simp
  from assms have lt: "\<bar>double_round (a - r)\<bar> < 5764607523034235 / 288230376151711744"
    by (auto simp: abs_diff_lt_002_def to_double_def Let_def double_round_002 split: if_splits)
  have "\<bar>double_round (a - r) - (a - r)\<bar> \<le> (\<bar>a - r\<bar> + 1) / 2 ^ 53" by (rule double_round_weak)
  then have "\<bar>a - r\<bar> - (\<bar>a - r\<bar> + 1) / 2 ^ 53 \<le> \<bar>double_round (a - r)\<bar>" by linarith
  with lt have "\<bar>a - r\<bar> - (\<bar>a - r\<bar> + 1) / 2 ^ 53 < 5764607523034235 / 288230376151711744"
    by linarith
  with big show False by (simp add: field_simps)
qed

section \<open>The selection of a scaling target\<close>

lemma ratio_matches_D:
  assumes "ratio_matches self d" "0 < res_height d" "0 < res_width d"
    and "res_width d \<le> 2 * res_height d"
  shows "height self \<noteq> 0"
    and "\<bar>of_int (res_width d) / of_int (res_height d) - of_int (width self) / of_int (height self) :: rat\<bar>
          \<le> 22 / 1000"
proof -
  define c :: rat where "c = of_int (res_width d) / of_int (res_height d)"
  define q :: rat where "q = of_int (width self) / of_int (height self)"
  from assms(1) obtain ratio a where
    ratio: "int_truediv (width self) (height self) = Inr ratio"
    and a: "int_truediv (res_width d) (res_height d) = Inr a"
    and close: "abs_diff_lt_002 a ratio"
    by (auto simp: ratio_matches_def split: sum.splits)
  show "height self \<noteq> 0" using int_truediv_Inr(1) [OF ratio] .
  have r: "ratio = double_round q" using int_truediv_Inr(2) [OF ratio] by (simp add: q_def)
  have a': "a = double_round c" using int_truediv_Inr(2) [OF a] by (simp add: c_def)
  have c0: "0 < c" using assms(2,3) by (simp add: c_def)
  have "(of_int (res_width d) :: rat) \<le> of_int (2 * res_height d)"
    using assms(4) by (simp only: of_int_le_iff)
  then have c2: "c \<le> 2" using assms(2) by (simp add: c_def pos_divide_le_eq)
  have e1: "\<bar>a - c\<bar> \<le> (\<bar>c\<bar> + 1) / 2 ^ 53" unfolding a' by (rule double_round_weak)
  have e2: "\<bar>ratio - q\<bar> \<le> (\<bar>q\<bar> + 1) / 2 ^ 53" unfolding r by (rule double_round_weak)
  have e3: "\<bar>a - ratio\<bar> \<le> 21 / 1000" using close by (rule abs_diff_lt_002_D)
  have e1': "\<bar>a - c\<bar> \<le> 1 / 1000000"
  proof -
    have "(\<bar>c\<bar> + 1) / 2 ^ 53 \<le> 3 / 2 ^ 53" using c0 c2 by (intro divide_right_mono) auto
    also have "\<dots> \<le> (1 / 1000000 :: rat)" by simp
    finally show ?thesis using e1 by linarith
  qed
  have rb: "\<bar>ratio\<bar> \<le> 3" using e1' e3 c0 c2 by linarith
  have "(\<bar>q\<bar> + 1) / 2 ^ 53 \<le> (\<bar>q\<bar> + 1) / 2"
    by (intro divide_left_mono) auto
  then have q53: "(\<bar>q\<bar> + 1) / 2 ^ 53 \<le> \<bar>q\<bar> / 2 + 1 / 2"
    by (simp add: add_divide_distrib)
  have qb: "\<bar>q\<bar> \<le> 7" using e2 q53 rb by linarith
  have e2': "\<bar>ratio - q\<bar> \<le> 1 / 1000000"
  proof -
    have "(\<bar>q\<bar> + 1) / 2 ^ 53 \<le> 8 / 2 ^ 53" using qb by (intro divide_right_mono) auto
    also have "\<dots> \<le> (1 / 1000000 :: rat)" by simp
    finally show ?thesis using e2 by linarith
  qed
  have "\<bar>c - q\<bar> \<le> 21 / 1000 + 1 / 1000000 + 1 / 1000000" using e1' e2' e3 by linarith
  also have "\<dots> \<le> 22 / 1000" by simp
  finally show "\<bar>of_int (res_width d) / of_int (res_height d) - of_int (width self) / of_int (height self) :: rat\<bar>
          \<le> 22 / 1000" by (simp add: c_def q_def)
qed

lemma ratio_matches_I:
  assumes "height self \<noteq> 0" "res_height d \<noteq> 0"
    and "\<bar>of_int (res_width d) / of_int (res_height d) :: rat\<bar> \<le> 4"
    and "\<bar>of_int (width self) / of_int (height self) :: rat\<bar> \<le> 4"
    and "\<bar>of_int (res_width d) / of_int (res_height d) - of_int (width self) / of_int (height self) :: rat\<bar>
          \<le> 18 / 1000"
  shows "ratio_matches self d"
proof -
  define c :: rat where "c = of_int (res_width d) / of_int (res_height d)"
  define q :: rat where "q = of_int (width self) / of_int (height self)"
  have cb: "\<bar>c\<bar> \<le> 4" and qb: "\<bar>q\<bar> \<le> 4" and cq: "\<bar>c - q\<bar> \<le> 18 / 1000"
    using assms by (simp_all add: c_def q_def)
  have r: "int_truediv (width self) (height self) = Inr (double_round q)"
    unfolding q_def using assms(1) qb by (intro int_truediv_ok) (auto simp: q_def)
  have a: "int_truediv (res_width d) (res_height d) = Inr (double_round c)"
    unfolding c_def using assms(2) cb by (intro int_truediv_ok) (auto simp: c_def)
  have small: "5 / 2 ^ 53 \<le> (1 / 1000000 :: rat)" by simp
  have "(\<bar>c\<bar> + 1) / 2 ^ 53 \<le> 5 / 2 ^ 53" using cb by (intro divide_right_mono) auto
  with double_round_weak [of c] small have e1: "\<bar>double_round c - c\<bar> \<le> 1 / 1000000" by linarith
  have "(\<bar>q\<bar> + 1) / 2 ^ 53 \<le> 5 / 2 ^ 53" using qb by (intro divide_right_mono) auto
  with double_round_weak [of q] small have e2: "\<bar>double_round q - q\<bar> \<le> 1 / 1000000" by linarith
  have "\<bar>double_round c - double_round q\<bar> \<le> 18 / 1000 + 1 / 1000000 + 1 / 1000000"
    using e1 e2 cq by linarith
  also have "\<dots> \<le> 19 / 1000" by simp
  finally have "abs_diff_lt_002 (double_round c) (double_round q)" by (rule abs_diff_close)
  then show ?thesis by (simp add: ratio_matches_def r a)
qed

lemma not_ratio_matches_I:
  assumes "\<bar>of_int (res_width d) / of_int (res_height d) :: rat\<bar> \<le> 4"
    and "\<bar>of_int (width self) / of_int (height self) :: rat\<bar> \<le> 4"
    and "22 / 1000 \<le> \<bar>of_int (res_width d) / of_int (res_height d) - of_int (width self) / of_int (height self) :: rat\<bar>"
  shows "\<not> ratio_matches self d"
proof
  assume m: "ratio_matches self d"
  define c :: rat where "c = of_int (res_width d) / of_int (res_height d)"
  define q :: rat where "q = of_int (width self) / of_int (height self)"
  have cb: "\<bar>c\<bar> \<le> 4" and qb: "\<bar>q\<bar> \<le> 4" and cq: "22 / 1000 \<le> \<bar>c - q\<bar>"
    using assms by (simp_all add: c_def q_def)
  from m obtain ratio a where
    ratio: "int_truediv (width self) (height self) = Inr ratio"
    and a: "int_truediv (res_width d) (res_height d) = Inr a"
    and close: "abs_diff_lt_002 a ratio"
    by (auto simp: ratio_matches_def split: sum.splits)
  have r: "ratio = double_round q" using int_truediv_Inr(2) [OF ratio] by (simp add: q_def)
  have a': "a = double_round c" using int_truediv_Inr(2) [OF a] by (simp add: c_def)
  have small: "5 / 2 ^ 53 \<le> (1 / 1000000 :: rat)" by simp
  have "(\<bar>c\<bar> + 1) / 2 ^ 53 \<le> 5 / 2 ^ 53" using cb by (intro divide_right_mono) auto
  with double_round_weak [of c] small have e1: "\<bar>a - c\<bar> \<le> 1 / 1000000" unfolding a' by linarith
  have "(\<bar>q\<bar> + 1) / 2 ^ 53 \<le> 5 / 2 ^ 53" using qb by (intro divide_right_mono) auto
  with double_round_weak [of q] small have e2: "\<bar>ratio - q\<bar> \<le> 1 / 1000000" unfolding r by linarith
  have e3: "\<bar>a - ratio\<bar> \<le> 21 / 1000" using close by (rule abs_diff_lt_002_D)
  have "\<bar>c - q\<bar> \<le> 21 / 1000 + 1 / 1000000 + 1 / 1000000" using e1 e2 e3 by linarith
  also have "\<dots> < 22 / 1000" by simp
  finally show False using cq by simp
qed

lemma target_dimension_SomeD:
  assumes "target_dimension ratio w ds = Inr (Some t)"
  shows "t \<in> set ds \<and> res_width t < w
     \<and> (\<exists>a. int_truediv (res_width t) (res_height t) = Inr a \<and> abs_diff_lt_002 a ratio)"
  using assms
  by (induction ds) (auto split: sum.splits if_splits)

lemma select_target_SomeD:
  assumes "select_target self = Inr (Some t)"
  shows "t \<in> set (map snd MAX_SCALING_TARGETS)" and "res_width t < width self"
    and "ratio_matches self t"
proof -
  from assms obtain ratio where
    ratio: "int_truediv (width self) (height self) = Inr ratio"
    and td: "target_dimension ratio (width self) (map snd MAX_SCALING_TARGETS) = Inr (Some t)"
    by (auto simp: select_target_def split: sum.splits)
  from target_dimension_SomeD [OF td]
  show "t \<in> set (map snd MAX_SCALING_TARGETS)" and "res_width t < width self"
    and "ratio_matches self t"
    by (auto simp: ratio_matches_def ratio)
qed

lemma selected_geometry:
  assumes "select_target self = Inr (Some t)"
  shows "0 < height self" and "height self < width self"
    and "res_height t < 2 * height self" and "res_width t < width self"
    and "1024 \<le> res_width t" and "res_width t \<le> 1366"
    and "768 \<le> res_height t" and "res_height t \<le> 800"
    and "100 * res_height t \<le> 143 * height self"
proof -
  note sel = select_target_SomeD [OF assms]
  from sel(1) have cases: "t = Resolution 1024 768 \<or> t = Resolution 1280 800 \<or> t = Resolution 1366 768"
    by (auto simp: MAX_SCALING_TARGETS_def)
  then show tw: "1024 \<le> res_width t" "res_width t \<le> 1366"
    and th: "768 \<le> res_height t" "res_height t \<le> 800" by auto
  show w: "res_width t < width self" by (rule sel(2))
  define q :: rat where "q = of_int (width self) / of_int (height self)"
  have h0: "height self \<noteq> 0"
    and cq: "\<bar>of_int (res_width t) / of_int (res_height t) - q\<bar> \<le> 22 / 1000"
    using ratio_matches_D [OF sel(3)] cases unfolding q_def by auto
  have ratios: "of_int (res_width t) / of_int (res_height t) = (4 / 3 :: rat)
      \<or> of_int (res_width t) / of_int (res_height t) = (8 / 5 :: rat)
      \<or> of_int (res_width t) / of_int (res_height t) = (683 / 384 :: rat)"
    using cases by auto
  have qlo: "13 / 10 \<le> q" and qhi: "q \<le> 19 / 10"
    using ratios cq by linarith+
  have wpos: "0 < width self" using w tw by simp
  show hpos: "0 < height self"
  proof (rule ccontr)
    assume "\<not> 0 < height self"
    then have "height self < 0" using h0 by simp
    then have "q < 0" using wpos by (simp add: q_def divide_pos_neg divide_neg_pos)
    with qlo show False by simp
  qed
  then have H: "(0::rat) < of_int (height self)" by simp
  have "13 / 10 * of_int (height self) \<le> (of_int (width self) :: rat)"
    using qlo H by (simp add: q_def pos_le_divide_eq)
  then have "(of_int (13 * height self) :: rat) \<le> of_int (10 * width self)" by simp
  then have a: "13 * height self \<le> 10 * width self" by (simp only: of_int_le_iff)
  then show "height self < width self" using hpos by simp
  have "(of_int (width self) :: rat) \<le> 19 / 10 * of_int (height self)"
    using qhi H by (simp add: q_def pos_divide_le_eq)
  then have "(of_int (10 * width self) :: rat) \<le> of_int (19 * height self)" by simp
  then have b: "10 * width self \<le> 19 * height self" by (simp only: of_int_le_iff)
  then show "res_height t < 2 * height self" using w tw th by simp
  show "100 * res_height t \<le> 143 * height self" using cases w b by auto
qed

lemma target_dimension_first_match:
  assumes "i < length ds"
    and "\<forall>j<i. \<exists>a. int_truediv (res_width (ds ! j)) (res_height (ds ! j)) = Inr a
                  \<and> \<not> abs_diff_lt_002 a ratio"
    and "int_truediv (res_width (ds ! i)) (res_height (ds ! i)) = Inr a"
    and "abs_diff_lt_002 a ratio"
  shows "target_dimension ratio w ds = Inr (if res_width (ds ! i) < w then Some (ds ! i) else None)"
  using assms
proof (induction ds arbitrary: i)
  case Nil
  then show ?case by simp
next
  case (Cons d ds)
  show ?case
  proof (cases i)
    case 0
    with Cons.prems show ?thesis by simp
  next
    case (Suc k)
    from Cons.prems(2) Suc obtain a0 where
      a0: "int_truediv (res_width d) (res_height d) = Inr a0" "\<not> abs_diff_lt_002 a0 ratio"
      by fastforce
    have "\<forall>j<k. \<exists>a. int_truediv (res_width (ds ! j)) (res_height (ds ! j)) = Inr a
                  \<and> \<not> abs_diff_lt_002 a ratio"
    proof (intro allI impI)
      fix j assume "j < k"
      then have "Suc j < i" using Suc by simp
      with Cons.prems(2) show "\<exists>a. int_truediv (res_width (ds ! j)) (res_height (ds ! j)) = Inr a
                  \<and> \<not> abs_diff_lt_002 a ratio" by fastforce
    qed
    with Cons.IH [of k] Cons.prems Suc a0 show ?thesis by simp
  qed
qed

lemma table_truediv:
  assumes "d \<in> set (map snd MAX_SCALING_TARGETS)"
  shows "int_truediv (res_width d) (res_height d)
          = Inr (double_round (of_int (res_width d) / of_int (res_height d)))"
proof -
  from assms consider "d = Resolution 1024 768" | "d = Resolution 1280 800" | "d = Resolution 1366 768"
    by (auto simp: MAX_SCALING_TARGETS_def)
  then show ?thesis by cases (simp_all add: int_truediv_ok)
qed

lemma not_ratio_matches_table:
  assumes "int_truediv (width self) (height self) = Inr ratio"
    and "d \<in> set (map snd MAX_SCALING_TARGETS)"
    and "\<not> ratio_matches self d"
  shows "\<exists>a. int_truediv (res_width d) (res_height d) = Inr a \<and> \<not> abs_diff_lt_002 a ratio"
  using assms table_truediv [OF assms(2)] by (simp add: ratio_matches_def)

text \<open>
  C2.  If some table entry matches the configured ratio (within \<open>0.02\<close>, in the floats
  of the code), no entry before it in table order does, and the configured width is at
  most that entry's width, then no target is selected and \<open>scale_coordinates\<close> returns
  its input unchanged in both directions: the scan stops at the first ratio match.
\<close>

theorem first_ratio_match_not_narrower_gives_no_target:
  assumes "i < length MAX_SCALING_TARGETS"
    and "ratio_matches self (snd (MAX_SCALING_TARGETS ! i))"
    and "\<forall>j<i. \<not> ratio_matches self (snd (MAX_SCALING_TARGETS ! j))"
    and "width self \<le> res_width (snd (MAX_SCALING_TARGETS ! i))"
  shows "select_target self = Inr None
     \<and> scale_coordinates self API x y = Inr (x, y)
     \<and> scale_coordinates self COMPUTER x y = Inr (x, y)"
proof -
  let ?ds = "map snd MAX_SCALING_TARGETS"
  from assms(2) obtain ratio a where
    ratio: "int_truediv (width self) (height self) = Inr ratio"
    and a: "int_truediv (res_width (?ds ! i)) (res_height (?ds ! i)) = Inr a"
    and close: "abs_diff_lt_002 a ratio"
    using assms(1) by (auto simp: ratio_matches_def split: sum.splits)
  have i: "i < length ?ds" using assms(1) by simp
  have before: "\<forall>j<i. \<exists>a. int_truediv (res_width (?ds ! j)) (res_height (?ds ! j)) = Inr a
                  \<and> \<not> abs_diff_lt_002 a ratio"
  proof (intro allI impI)
    fix j assume j: "j < i"
    then have "?ds ! j \<in> set ?ds" using i by (intro nth_mem) simp
    moreover have "\<not> ratio_matches self (?ds ! j)" using assms(3) j i by simp
    ultimately show "\<exists>a. int_truediv (res_width (?ds ! j)) (res_height (?ds ! j)) = Inr a
                  \<and> \<not> abs_diff_lt_002 a ratio"
      using not_ratio_matches_table [OF ratio] by blast
  qed
  have "target_dimension ratio (width self) ?ds
        = Inr (if res_width (?ds ! i) < width self then Some (?ds ! i) else None)"
    using i before a close by (rule target_dimension_first_match)
  then have sel: "select_target self = Inr None"
    using assms(4) i by (simp add: select_target_def ratio)
  then show ?thesis by (simp add: scale_coordinates_def)
qed

theorem first_ratio_match_not_narrower_gives_no_target_witness:
  "ratio_matches xga_tool (snd (MAX_SCALING_TARGETS ! 0))
   \<and> width xga_tool \<le> res_width (snd (MAX_SCALING_TARGETS ! 0))
   \<and> select_target xga_tool = Inr None
   \<and> scale_coordinates xga_tool API 100 200 = Inr (100, 200)
   \<and> scale_coordinates xga_tool COMPUTER 100 200 = Inr (100, 200)
   \<and> \<not> ratio_matches hd_tool (snd (MAX_SCALING_TARGETS ! 0))
   \<and> \<not> ratio_matches hd_tool (snd (MAX_SCALING_TARGETS ! 1))
   \<and> ratio_matches hd_tool (snd (MAX_SCALING_TARGETS ! 2))
   \<and> width hd_tool \<le> res_width (snd (MAX_SCALING_TARGETS ! 2))
   \<and> select_target hd_tool = Inr None
   \<and> scale_coordinates hd_tool API 100 200 = Inr (100, 200)
   \<and> scale_coordinates hd_tool COMPUTER 100 200 = Inr (100, 200)"
proof -
  have 1: "0 < length MAX_SCALING_TARGETS" by (simp add: MAX_SCALING_TARGETS_def)
  have 2: "ratio_matches xga_tool (snd (MAX_SCALING_TARGETS ! 0))"
    by (simp add: ratio_matches_def xga_tool_def MAX_SCALING_TARGETS_def int_truediv_ok abs_diff_self)
  have 3: "\<forall>j<0. \<not> ratio_matches xga_tool (snd (MAX_SCALING_TARGETS ! j))" by simp
  have 4: "width xga_tool \<le> res_width (snd (MAX_SCALING_TARGETS ! 0))"
    by (simp add: xga_tool_def MAX_SCALING_TARGETS_def)
  have 5: "2 < length MAX_SCALING_TARGETS" by (simp add: MAX_SCALING_TARGETS_def)
  have 6: "\<not> ratio_matches hd_tool (snd (MAX_SCALING_TARGETS ! 0))"
    by (rule not_ratio_matches_I) (simp_all add: hd_tool_def MAX_SCALING_TARGETS_def)
  have 7: "\<not> ratio_matches hd_tool (snd (MAX_SCALING_TARGETS ! 1))"
    by (rule not_ratio_matches_I) (simp_all add: hd_tool_def MAX_SCALING_TARGETS_def)
  have 8: "ratio_matches hd_tool (snd (MAX_SCALING_TARGETS ! 2))"
    by (rule ratio_matches_I) (simp_all add: hd_tool_def MAX_SCALING_TARGETS_def)
  have 9: "\<forall>j<2. \<not> ratio_matches hd_tool (snd (MAX_SCALING_TARGETS ! j))"
  proof (intro allI impI)
    fix j :: nat assume "j < 2"
    then have "j = 0 \<or> j = 1" by auto
    with 6 7 show "\<not> ratio_matches hd_tool (snd (MAX_SCALING_TARGETS ! j))" by auto
  qed
  have 10: "width hd_tool \<le> res_width (snd (MAX_SCALING_TARGETS ! 2))"
    by (simp add: hd_tool_def MAX_SCALING_TARGETS_def)
  from first_ratio_match_not_narrower_gives_no_target [OF 1 2 3 4, of 100 200]
    first_ratio_match_not_narrower_gives_no_target [OF 5 8 9 10, of 100 200]
    2 4 6 7 8 10
  show ?thesis by blast
qed

section \<open>The example tool of 2048 by 1536 pixels\<close>

lemma to_double_of_int:
  assumes "\<bar>m\<bar> < 2 ^ 53"
  shows "to_double (of_int m) = Finite (of_int m)"
proof -
  have "(of_int \<bar>m\<bar> :: rat) \<le> of_int (2 ^ 53)" using assms by (simp only: of_int_le_iff)
  then have "\<bar>of_int m :: rat\<bar> \<le> pow2 1023" using pow2_1023_ge by simp
  then show ?thesis using assms by (simp add: to_double_finite double_round_of_int)
qed

lemma to_double_half:
  assumes "\<bar>m\<bar> < 2 ^ 53"
  shows "to_double (of_int m / 2) = Finite (of_int m / 2)"
proof -
  have "(of_int \<bar>m\<bar> :: rat) \<le> of_int (2 ^ 53)" using assms by (simp only: of_int_le_iff)
  then have "\<bar>of_int m / 2 :: rat\<bar> \<le> pow2 1023" using pow2_1023_ge by simp
  moreover have "double_round (of_int m / 2) = of_int m / 2"
    using double_round_exact [of m "- 1"] assms by (simp add: pow2_def)
  ultimately show ?thesis by (simp add: to_double_finite)
qed

lemma int_truediv_half: "int_truediv 1024 2048 = Inr (1 / 2)" "int_truediv 768 1536 = Inr (1 / 2)"
  using double_round_exact [of 1 "- 1"] by (simp_all add: int_truediv_ok pow2_def)

lemma scale_up_half:
  assumes "\<bar>x\<bar> < 2 ^ 52"
  shows "scale_up x (1 / 2) = Inr (2 * x)"
proof -
  have x: "\<bar>x\<bar> < 2 ^ 53" and x2: "\<bar>2 * x\<bar> < 2 ^ 53" using assms by simp_all
  have h: "(of_int x :: rat) / (1 / 2) = of_int (2 * x)" by simp
  have nz: "(1 / 2 :: rat) \<noteq> 0" by simp
  have "int_div_float x (1 / 2) = Inr (to_double (of_int x / (1 / 2)))"
    by (simp only: int_div_float_def float_of_int_exact [OF x] sum.case nz if_False)
  also have "\<dots> = Inr (to_double (of_int (2 * x)))" by (simp only: h)
  also have "\<dots> = Inr (Finite (of_int (2 * x)))" using x2 by (simp only: to_double_of_int)
  finally show ?thesis
    by (simp only: scale_up_def sum.case py_round.simps round_half_even_of_int)
qed

lemma scale_down_half:
  assumes "\<bar>x\<bar> < 2 ^ 53"
  shows "scale_down x (1 / 2) = Inr (round_half_even (of_int x / 2))"
  by (simp add: scale_down_def int_mul_float_def float_of_int_exact [OF assms]
      to_double_half [OF assms])

lemma scaled_tool_fields:
  "width scaled_tool = 2048" "height scaled_tool = 1536" "scaling_enabled scaled_tool"
  by (simp_all add: scaled_tool_def)

lemma select_scaled_tool: "select_target scaled_tool = Inr (Some (Resolution 1024 768))"
  by (simp add: select_target_def scaled_tool_def MAX_SCALING_TARGETS_def int_truediv_ok
      abs_diff_self)

lemma scaled_tool_api:
  assumes "x \<le> 2048" "y \<le> 1536" "\<bar>x\<bar> < 2 ^ 52" "\<bar>y\<bar> < 2 ^ 52"
  shows "scale_coordinates scaled_tool API x y = Inr (2 * x, 2 * y)"
  using assms(1,2)
  by (simp add: scale_coordinates_def select_scaled_tool int_truediv_half scaled_tool_fields
      scale_up_half [OF assms(3)] scale_up_half [OF assms(4)])

lemma scaled_tool_computer:
  assumes "\<bar>x\<bar> < 2 ^ 53" "\<bar>y\<bar> < 2 ^ 53"
  shows "scale_coordinates scaled_tool COMPUTER x y
    = Inr (round_half_even (of_int x / 2), round_half_even (of_int y / 2))"
  by (simp add: scale_coordinates_def select_scaled_tool int_truediv_half scaled_tool_fields
      scale_down_half [OF assms(1)] scale_down_half [OF assms(2)])

section \<open>Scaling with a selected target\<close>

lemma double_round_factor:
  assumes "pow2 (- 1022) \<le> \<bar>q\<bar>"
  shows "\<exists>d. double_round q = q * (1 + d) \<and> \<bar>d\<bar> \<le> 1 / 2 ^ 53"
proof -
  have q0: "q \<noteq> 0" using assms pow2_pos [of "- 1022"] by auto
  define d where "d = (double_round q - q) / q"
  have "double_round q = q * (1 + d)" using q0 by (simp add: d_def field_simps)
  moreover have "\<bar>d\<bar> \<le> 1 / 2 ^ 53"
  proof -
    have "\<bar>d\<bar> = \<bar>double_round q - q\<bar> / \<bar>q\<bar>" by (simp add: d_def)
    also have "\<dots> \<le> (\<bar>q\<bar> * pow2 (- 53)) / \<bar>q\<bar>"
      using double_round_rel [OF assms] by (intro divide_right_mono) auto
    also have "\<dots> = 1 / 2 ^ 53" using q0 by (simp add: pow2_def)
    finally show ?thesis .
  qed
  ultimately show ?thesis by blast
qed


lemma pow2_m1022_le: "pow2 (- 1022) \<le> pow2 (- 1000)" "pow2 (- 1022) \<le> 1 / 4"
proof -
  show "pow2 (- 1022) \<le> pow2 (- 1000)" by (rule pow2_mono) simp
  have "pow2 (- 1022) \<le> pow2 (- 2)" by (rule pow2_mono) simp
  then show "pow2 (- 1022) \<le> 1 / 4" by (simp add: pow2_def)
qed



lemma factor_ok:
  assumes "0 < t" "t \<le> 2048" "0 < n"
  shows "int_truediv t n = Inr (double_round (of_int t / of_int n))"
proof -
  have "(1::rat) \<le> of_int n" "(0::rat) < of_int t" "(of_int t :: rat) \<le> 2048"
    using assms by simp_all
  then have "(of_int t :: rat) / of_int n \<le> 2048 / 1"
    by (intro frac_le) auto
  moreover have "(0::rat) \<le> of_int t / of_int n" using assms by simp
  ultimately have "\<bar>of_int t / of_int n :: rat\<bar> \<le> 2 ^ 53" by simp
  then show ?thesis using assms(3) by (intro int_truediv_ok) auto
qed

lemma select_target_XGA:
  assumes "of_int (width self) / of_int (height self) = (4 / 3 :: rat)" "1024 < width self"
  shows "select_target self = Inr (Some (Resolution 1024 768))"
proof -
  have h: "height self \<noteq> 0" using assms(1) by auto
  have "\<bar>of_int (width self) / of_int (height self) :: rat\<bar> \<le> 2 ^ 53"
    unfolding assms(1) by simp
  with h have "int_truediv (width self) (height self)
      = Inr (double_round (of_int (width self) / of_int (height self)))"
    by (rule int_truediv_ok)
  then have "int_truediv (width self) (height self) = Inr (double_round (4 / 3))"
    unfolding assms(1) .
  then show ?thesis using assms(2)
    by (simp add: select_target_def MAX_SCALING_TARGETS_def int_truediv_ok abs_diff_self)
qed


lemma scale_coordinates_selected:
  assumes "scaling_enabled self" "select_target self = Inr (Some t)"
    and "int_truediv (res_width t) (width self) = Inr fx"
    and "int_truediv (res_height t) (height self) = Inr fy"
  shows "scale_coordinates self COMPUTER x y =
      (case scale_down x fx of
         Inl e \<Rightarrow> Inl e
       | Inr x' \<Rightarrow> (case scale_down y fy of Inl e \<Rightarrow> Inl e | Inr y' \<Rightarrow> Inr (x', y')))"
    and "scale_coordinates self API x y =
      (if x > width self \<or> y > height self then Inl (ToolError (OutOfBounds x y))
       else (case scale_up x fx of
               Inl e \<Rightarrow> Inl e
             | Inr x' \<Rightarrow> (case scale_up y fy of Inl e \<Rightarrow> Inl e | Inr y' \<Rightarrow> Inr (x', y'))))"
  using assms by (simp_all add: scale_coordinates_def)

lemma selected_factors:
  assumes "select_target self = Inr (Some t)"
  shows "int_truediv (res_width t) (width self)
          = Inr (double_round (of_int (res_width t) / of_int (width self)))"
    and "int_truediv (res_height t) (height self)
          = Inr (double_round (of_int (res_height t) / of_int (height self)))"
proof -
  note g = selected_geometry [OF assms]
  show "int_truediv (res_width t) (width self)
          = Inr (double_round (of_int (res_width t) / of_int (width self)))"
    using g by (intro factor_ok) auto
  show "int_truediv (res_height t) (height self)
          = Inr (double_round (of_int (res_height t) / of_int (height self)))"
    using g by (intro factor_ok) auto
qed




lemma round_half_even_numeral [simp]: "round_half_even (numeral k) = numeral k"
  using round_half_even_of_int [of "numeral k"] by simp

section \<open>Scaling disabled\<close>

text \<open>
  C7.  When scaling is disabled, \<open>scale_coordinates\<close> returns its input pair unchanged,
  for every input and in both directions; in particular it never raises.
\<close>

theorem scaling_disabled_identity:
  "\<not> scaling_enabled self \<Longrightarrow> scale_coordinates self source x y = Inr (x, y)"
  by (simp add: scale_coordinates_def)

theorem scaling_disabled_identity_witness:
  "\<not> scaling_enabled \<lparr>width = 1920, height = 1080, display_num = None, scaling_enabled = False\<rparr>
   \<and> scale_coordinates \<lparr>width = 1920, height = 1080, display_num = None, scaling_enabled = False\<rparr>
        API 5000 (- 3) = Inr (5000, - 3)"
  using scaling_disabled_identity
    [of "\<lparr>width = 1920, height = 1080, display_num = None, scaling_enabled = False\<rparr>" API 5000 "- 3"]
  by simp

section \<open>The action \<open>type\<close>\<close>

lemma concat_slices:
  "concat (map (\<lambda>i. slice s i (i + n)) (map (\<lambda>k. k * n) [0 ..< m])) = take (m * n) s"
proof (induction m)
  case 0
  then show ?case by simp
next
  case (Suc m)
  have "take (m * n) s @ take n (drop (m * n) s) = take (m * n + n) s"
    by (simp add: take_add)
  with Suc show ?case by (simp add: slice_def add.commute)
qed

lemma range_step_covers:
  assumes "0 < n"
  shows "length s \<le> ((length s + n - 1) div n) * n"
proof -
  have "(length s + n - 1) mod n < n" using assms by simp
  moreover have "length s + n - 1 = ((length s + n - 1) div n) * n + (length s + n - 1) mod n"
    by simp
  ultimately show ?thesis using assms by linarith
qed

lemma concat_chunks:
  assumes "0 < n"
  shows "concat (map (\<lambda>i. slice s i (i + n)) (range_step (length s) n)) = s"
  using range_step_covers [OF assms, of s]
  by (simp add: range_step_def concat_slices del: map_map)

lemma chunk_length:
  assumes "0 < n" "k < (length s + n - 1) div n"
  shows "length (slice s (k * n) (k * n + n)) = (if Suc k < (length s + n - 1) div n then n else length s - k * n)"
    and "0 < length (slice s (k * n) (k * n + n))"
proof -
  have kn: "k * n < length s"
  proof -
    have "Suc k \<le> (length s + n - 1) div n" using assms(2) by simp
    then have "Suc k * n \<le> ((length s + n - 1) div n) * n" by (rule mult_le_mono1)
    also have "\<dots> \<le> length s + n - 1" by simp
    finally show ?thesis using assms(1) by simp
  qed
  show "0 < length (slice s (k * n) (k * n + n))" using kn assms(1) by (simp add: slice_def)
  show "length (slice s (k * n) (k * n + n)) = (if Suc k < (length s + n - 1) div n then n else length s - k * n)"
  proof (cases "Suc k < (length s + n - 1) div n")
    case True
    then have "Suc (Suc k) \<le> (length s + n - 1) div n" by simp
    then have "Suc (Suc k) * n \<le> ((length s + n - 1) div n) * n" by (rule mult_le_mono1)
    also have "\<dots> \<le> length s + n - 1" by simp
    finally have "k * n + n \<le> length s" using assms(1) by simp
    with True show ?thesis by (simp add: slice_def)
  next
    case False
    then have "(length s + n - 1) div n = Suc k" using assms(2) by simp
    then have "length s \<le> Suc k * n" using range_step_covers [OF assms(1), of s] by simp
    with False show ?thesis by (simp add: slice_def)
  qed
qed

lemma chunks_50:
  "chunks t TYPING_GROUP_SIZE = Inr (map (\<lambda>i. slice t i (i + 50)) (range_step (length t) 50))"
  by (simp add: chunks_def TYPING_GROUP_SIZE_def)

lemma screenshot_returns_image:
  "snd (screenshot self env) = Inr r \<Longrightarrow> \<exists>b. screenshot_file env = Some b \<and> base64_image r = Some b"
  by (auto simp: screenshot_def Let_def split: if_splits sum.splits option.splits prod.splits)

lemma screenshot_succeeds:
  assumes "screenshot_file env = Some b"
    and "scaling_enabled self \<longrightarrow> scale_coordinates self COMPUTER (width self) (height self) = Inr p"
  shows "\<exists>r. snd (screenshot self env) = Inr r \<and> base64_image r = Some b"
  using assms
  by (cases p) (auto simp: screenshot_def Let_def split: if_splits sum.splits option.splits prod.splits)

lemma typing_interval_close: "\<bar>typing_interval - 12 / 1000\<bar> < 1 / 10 ^ 17"
proof -
  have "pow2 (- 1075) \<le> pow2 (- 63)" by (rule pow2_mono) simp
  with double_round_error [of "12 / 1000"]
  have "\<bar>double_round (12 / 1000) - 12 / 1000\<bar> \<le> \<bar>12 / 1000 :: rat\<bar> * pow2 (- 53) + pow2 (- 63)"
    by linarith
  then have "\<bar>double_round (12 / 1000) - 12 / 1000\<bar> \<le> 12 / 1000 * (1 / 2 ^ 53) + 1 / 2 ^ 63"
    by (simp add: pow2_def)
  also have "\<dots> < (1 / 10 ^ 17 :: rat)" by simp
  finally show ?thesis
    by (simp add: typing_interval_def TYPING_DELAY_MS_def)
qed

text \<open>
  C6.  For the action \<open>type\<close> and any text \<open>t\<close>: \<open>chunks\<close> returns
  \<open>\<lceil>len(t) / 50\<rceil>\<close> pieces, the \<open>i\<close>-th being the 50 characters of \<open>t\<close> from position
  \<open>50 i\<close> on (fewer where the text ends): every piece is non-empty and at most 50 long,
  every piece but the last exactly 50; the pieces concatenated give the text back; the
  events are one \<open>write\<close> per piece, each with the interval \<open>12/1000\<close> seconds (as a
  float), followed by the events of \<open>screenshot\<close>; a result that is returned carries
  the text and the image of the screenshot file; the only exceptions are those of
  \<open>screenshot\<close>; and when the screenshot file exists (and the scaling of the configured
  size, if enabled, does not raise) a result is returned.
\<close>

theorem type_splits_text_and_attaches_screenshot:
  fixes t :: string
  shows "\<exists>cs. chunks t TYPING_GROUP_SIZE = Inr cs
    \<and> length cs = (length t + 49) div 50
    \<and> (\<forall>i < length cs. cs ! i = take 50 (drop (i * 50) t))
    \<and> (\<forall>i < length cs. 0 < length (cs ! i) \<and> length (cs ! i) \<le> 50
          \<and> length (cs ! i) = (if Suc i < length cs then 50 else length t - i * 50))
    \<and> concat cs = t
    \<and> fst (call self env ''type'' (Some t) None)
        = map (\<lambda>chunk. Write chunk typing_interval) cs @ fst (screenshot self env)
    \<and> \<bar>typing_interval - 12 / 1000\<bar> < 1 / 10 ^ 17
    \<and> (case snd (call self env ''type'' (Some t) None) of
          Inl e \<Rightarrow> snd (screenshot self env) = Inl e
        | Inr r \<Rightarrow> output_text r = Some (Typed t)
                   \<and> (\<exists>b. screenshot_file env = Some b \<and> base64_image r = Some b))
    \<and> (\<forall>b p. screenshot_file env = Some b
          \<and> (scaling_enabled self
               \<longrightarrow> scale_coordinates self COMPUTER (width self) (height self) = Inr p)
          \<longrightarrow> snd (call self env ''type'' (Some t) None)
               = Inr \<lparr>output_text = Some (Typed t), error = None, base64_image = Some b\<rparr>)"
proof -
  define cs where "cs = map (\<lambda>i. slice t i (i + 50)) (range_step (length t) 50)"
  have c: "chunks t TYPING_GROUP_SIZE = Inr cs" by (simp add: chunks_50 cs_def)
  have len: "length cs = (length t + 49) div 50" by (simp add: cs_def range_step_def)
  have nth: "cs ! i = take 50 (drop (i * 50) t)" if "i < length cs" for i
    using that by (simp add: cs_def range_step_def slice_def)
  have 0: "\<forall>i < length cs. cs ! i = take 50 (drop (i * 50) t)" using nth by blast
  have 1: "concat cs = t" unfolding cs_def by (rule concat_chunks) simp
  have 2: "\<forall>i < length cs. 0 < length (cs ! i) \<and> length (cs ! i) \<le> 50
          \<and> length (cs ! i) = (if Suc i < length cs then 50 else length t - i * 50)"
  proof (intro allI impI)
    fix i assume i: "i < length cs"
    then have k: "i < (length t + 50 - 1) div 50" by (simp add: len)
    have "length (cs ! i) \<le> 50" by (simp add: nth [OF i])
    moreover have "0 < length (cs ! i)
          \<and> length (cs ! i) = (if Suc i < length cs then 50 else length t - i * 50)"
      using chunk_length [of 50 i t, OF _ k] nth [OF i] by (simp add: len slice_def add.commute)
    ultimately show "0 < length (cs ! i) \<and> length (cs ! i) \<le> 50
          \<and> length (cs ! i) = (if Suc i < length cs then 50 else length t - i * 50)"
      by blast
  qed
  have call: "call self env ''type'' (Some t) None =
      (map (\<lambda>chunk. Write chunk typing_interval) cs @ fst (screenshot self env),
       case snd (screenshot self env) of
         Inl e \<Rightarrow> Inl e
       | Inr r \<Rightarrow> Inr \<lparr>output_text = Some (Typed t), error = None,
                        base64_image = base64_image r\<rparr>)"
    by (simp add: call_def key_text_def c Let_def)
  have 3: "fst (call self env ''type'' (Some t) None)
        = map (\<lambda>chunk. Write chunk typing_interval) cs @ fst (screenshot self env)"
    by (simp add: call)
  have 4: "(case snd (call self env ''type'' (Some t) None) of
          Inl e \<Rightarrow> snd (screenshot self env) = Inl e
        | Inr r \<Rightarrow> output_text r = Some (Typed t)
                   \<and> (\<exists>b. screenshot_file env = Some b \<and> base64_image r = Some b))"
    using screenshot_returns_image [of self env]
    by (cases "snd (screenshot self env)") (auto simp: call)
  have 5: "\<forall>b p. screenshot_file env = Some b
          \<and> (scaling_enabled self
               \<longrightarrow> scale_coordinates self COMPUTER (width self) (height self) = Inr p)
          \<longrightarrow> snd (call self env ''type'' (Some t) None)
               = Inr \<lparr>output_text = Some (Typed t), error = None, base64_image = Some b\<rparr>"
  proof (intro allI impI)
    fix b p
    assume h: "screenshot_file env = Some b
          \<and> (scaling_enabled self
               \<longrightarrow> scale_coordinates self COMPUTER (width self) (height self) = Inr p)"
    then obtain r where "snd (screenshot self env) = Inr r" "base64_image r = Some b"
      using screenshot_succeeds [of env b self p] by blast
    then show "snd (call self env ''type'' (Some t) None)
               = Inr \<lparr>output_text = Some (Typed t), error = None, base64_image = Some b\<rparr>"
      by (simp add: call)
  qed
  from c len 0 1 2 3 4 5 typing_interval_close show ?thesis by blast
qed

theorem type_splits_text_and_attaches_screenshot_witness:
  "snd (call unscaled_tool example_env ''type''
      (Some ''The quick brown fox jumps over the lazy dog, twice over.'') None)
    = Inr \<lparr>output_text = Some (Typed ''The quick brown fox jumps over the lazy dog, twice over.''),
           error = None, base64_image = Some ''aGk=''\<rparr>
   \<and> chunks ''The quick brown fox jumps over the lazy dog, twice over.'' TYPING_GROUP_SIZE
       = Inr [''The quick brown fox jumps over the lazy dog, twice'', '' over.'']
   \<and> (\<exists>cs. chunks ''The quick brown fox jumps over the lazy dog, twice over.''
             TYPING_GROUP_SIZE = Inr cs \<and> length cs = 2
          \<and> cs ! 0 = ''The quick brown fox jumps over the lazy dog, twice''
          \<and> cs ! 1 = '' over.'')"
proof -
  let ?t = "''The quick brown fox jumps over the lazy dog, twice over.''"
  from type_splits_text_and_attaches_screenshot [of ?t unscaled_tool example_env]
  obtain cs where cs: "chunks ?t TYPING_GROUP_SIZE = Inr cs"
    and len: "length cs = (length ?t + 49) div 50"
    and nth: "\<forall>i < length cs. cs ! i = take 50 (drop (i * 50) ?t)"
    and always: "\<forall>b p. screenshot_file example_env = Some b
          \<and> (scaling_enabled unscaled_tool
               \<longrightarrow> scale_coordinates unscaled_tool COMPUTER (width unscaled_tool) (height unscaled_tool) = Inr p)
          \<longrightarrow> snd (call unscaled_tool example_env ''type'' (Some ?t) None)
               = Inr \<lparr>output_text = Some (Typed ?t), error = None, base64_image = Some b\<rparr>"
    by blast
  have l2: "length cs = 2" using len by simp
  then have n0: "cs ! 0 = ''The quick brown fox jumps over the lazy dog, twice''"
    and n1: "cs ! 1 = '' over.''" using nth by simp_all
  have shot: "screenshot_file example_env = Some ''aGk=''" by (simp add: example_env_def)
  have off: "\<not> scaling_enabled unscaled_tool" by (simp add: unscaled_tool_def)
  from always shot off
  have "snd (call unscaled_tool example_env ''type'' (Some ?t) None)
               = Inr \<lparr>output_text = Some (Typed ?t), error = None, base64_image = Some ''aGk=''\<rparr>"
    by blast
  moreover have "chunks ?t TYPING_GROUP_SIZE
       = Inr [''The quick brown fox jumps over the lazy dog, twice'', '' over.'']"
    by (simp add: chunks_def TYPING_GROUP_SIZE_def range_step_def slice_def upt_rec)
  ultimately show ?thesis using cs l2 n0 n1 by blast
qed

section \<open>The action \<open>key\<close>\<close>

lemma lower_char_digit:
  assumes "c \<in> set ''1234567890''"
  shows "lower_char c = c"
proof -
  from assms consider "c = CHR ''1''" | "c = CHR ''2''" | "c = CHR ''3''" | "c = CHR ''4''"
    | "c = CHR ''5''" | "c = CHR ''6''" | "c = CHR ''7''" | "c = CHR ''8''" | "c = CHR ''9''"
    | "c = CHR ''0''"
    by (simp only: set_simps insert_iff empty_iff) blast
  then show ?thesis by cases (simp_all add: lower_char_def)
qed

lemma sublist_digits_lower:
  assumes "sublist t ''1234567890''"
  shows "lower t = t"
proof -
  have "set t \<subseteq> set ''1234567890''" using assms by (rule set_mono_sublist)
  then have "\<forall>c \<in> set t. lower_char c = c" using lower_char_digit by blast
  then show ?thesis by (simp add: lower_def map_idI)
qed

lemma key_events_return:
  assumes "lower t = ''return''"
  shows "key_events t = [Press ''enter'']"
proof -
  have "\<not> sublist t ''1234567890''"
  proof
    assume s: "sublist t ''1234567890''"
    then have "t = ''return''" using sublist_digits_lower assms by simp
    with s show False by (simp add: sublist_code)
  qed
  then show ?thesis using assms by (simp add: key_events_def sublist_code)
qed

text \<open>
  C5.  For the action \<open>key\<close>: the text \<open>w\<close> gives key-down \<open>w\<close>, a sleep of one
  second, key-up \<open>w\<close>; every text whose lower-casing is \<open>return\<close> gives a press of
  \<open>enter\<close>; the text \<open>up-arrow\<close> gives a press of \<open>up\<close>.
\<close>

theorem key_w_return_up_arrow:
  "call self env ''key'' (Some ''w'') None
     = ([KeyDown ''w'', Sleep 1, KeyUp ''w''], Inr (result_output (PressedKey ''w'')))
   \<and> (\<forall>t. lower t = ''return'' \<longrightarrow>
         call self env ''key'' (Some t) None = ([Press ''enter''], Inr (result_output (PressedKey t))))
   \<and> call self env ''key'' (Some ''up-arrow'') None
     = ([Press ''up''], Inr (result_output (PressedKey ''up-arrow'')))"
proof -
  have "key_events ''w'' = [KeyDown ''w'', Sleep 1, KeyUp ''w'']"
    by (simp add: key_events_def lower_def lower_char_def sublist_code)
  moreover have "key_events ''up-arrow'' = [Press ''up'']"
    by (simp add: key_events_def lower_def lower_char_def sublist_code)
  ultimately show ?thesis
    by (simp add: call_def key_text_def key_events_return)
qed

theorem key_w_return_up_arrow_witness:
  "lower ''ReTURN'' = ''return''
   \<and> call unscaled_tool example_env ''key'' (Some ''ReTURN'') None
       = ([Press ''enter''], Inr (result_output (PressedKey ''ReTURN'')))"
proof -
  have l: "lower ''ReTURN'' = ''return''" by (simp add: lower_def lower_char_def)
  with key_w_return_up_arrow [of unscaled_tool example_env] show ?thesis by blast
qed

text \<open>
  C10.  For the action \<open>key\<close>, every text whose lower-casing is a contiguous
  substring of \<open>wasd\<close> takes the hold-one-second-then-release branch, with the
  lower-cased text as the key name; \<open>as\<close>, \<open>wasd\<close> and the empty string are such
  texts.
\<close>

theorem key_hold_branch_for_substrings_of_wasd:
  "(\<forall>t. sublist (lower t) ''wasd'' \<longrightarrow>
      call self env ''key'' (Some t) None
        = ([KeyDown (lower t), Sleep 1, KeyUp (lower t)], Inr (result_output (PressedKey t))))
   \<and> sublist (lower ''as'') ''wasd'' \<and> sublist (lower ''wasd'') ''wasd''
   \<and> sublist (lower '''') ''wasd''"
  by (simp add: call_def key_text_def key_events_def lower_def lower_char_def sublist_code)

theorem key_hold_branch_for_substrings_of_wasd_witness:
  "sublist (lower ''AS'') ''wasd''
   \<and> call unscaled_tool example_env ''key'' (Some ''AS'') None
       = ([KeyDown ''as'', Sleep 1, KeyUp ''as''], Inr (result_output (PressedKey ''AS'')))
   \<and> call unscaled_tool example_env ''key'' (Some '''') None
       = ([KeyDown '''', Sleep 1, KeyUp ''''], Inr (result_output (PressedKey '''')))"
proof -
  have a: "lower ''AS'' = ''as''" "lower '''' = ''''" by (simp_all add: lower_def lower_char_def)
  have s: "sublist (lower ''AS'') ''wasd''" "sublist (lower '''') ''wasd''"
    by (simp_all add: a sublist_code)
  from key_hold_branch_for_substrings_of_wasd [of unscaled_tool example_env]
  have hold: "\<And>t. sublist (lower t) ''wasd'' \<Longrightarrow>
      call unscaled_tool example_env ''key'' (Some t) None
        = ([KeyDown (lower t), Sleep 1, KeyUp (lower t)], Inr (result_output (PressedKey t)))"
    by blast
  from hold [OF s(1)] hold [OF s(2)] s(1) show ?thesis by (simp add: a)
qed

section \<open>The game-control actions\<close>

text \<open>
  C4.  The game-control block validates neither \<open>text\<close> nor \<open>coordinate\<close>: whatever
  text and coordinate are passed, each of the ten game-control actions performs its
  mouse or key event and returns \<open>Performed \<dots>\<close>; no validation error is raised.
\<close>

theorem game_control_accepts_text_and_coordinate:
  "call self env ''left_down'' text coordinate
     = ([MouseDown], Inr (result_output (Performed ''left_down'')))
   \<and> call self env ''left_up'' text coordinate
     = ([MouseUp], Inr (result_output (Performed ''left_up'')))
   \<and> call self env ''hold_arrow_up'' text coordinate
     = ([KeyDown ''up''], Inr (result_output (Performed ''hold_arrow_up'')))
   \<and> call self env ''hold_arrow_down'' text coordinate
     = ([KeyDown ''down''], Inr (result_output (Performed ''hold_arrow_down'')))
   \<and> call self env ''hold_arrow_left'' text coordinate
     = ([KeyDown ''left''], Inr (result_output (Performed ''hold_arrow_left'')))
   \<and> call self env ''hold_arrow_right'' text coordinate
     = ([KeyDown ''right''], Inr (result_output (Performed ''hold_arrow_right'')))
   \<and> call self env ''release_arrow_up'' text coordinate
     = ([KeyUp ''up''], Inr (result_output (Performed ''release_arrow_up'')))
   \<and> call self env ''release_arrow_down'' text coordinate
     = ([KeyUp ''down''], Inr (result_output (Performed ''release_arrow_down'')))
   \<and> call self env ''release_arrow_left'' text coordinate
     = ([KeyUp ''left''], Inr (result_output (Performed ''release_arrow_left'')))
   \<and> call self env ''release_arrow_right'' text coordinate
     = ([KeyUp ''right''], Inr (result_output (Performed ''release_arrow_right'')))
   \<and> call self env ''left_down'' (Some ''x'') (Some (PyList [PyInt 1, PyInt 2]))
     = ([MouseDown], Inr (result_output (Performed ''left_down'')))"
  by (simp add: call_def game_control_def)

section \<open>The pointer-motion actions\<close>





section \<open>The advertised options\<close>






section \<open>The mapping from agent to physical coordinates\<close>





section \<open>The round trip through both mappings\<close>

lemma round_half_even_zero [simp]: "round_half_even 0 = 0"
  using round_half_even_of_int [of 0] by simp

lemma scale_zero: "f \<noteq> 0 \<Longrightarrow> scale_up 0 f = Inr 0" "scale_down 0 f = Inr 0"
  using float_of_int_exact [of 0] pow2_pos [of 1024]
  by (simp_all add: scale_up_def scale_down_def int_div_float_def int_mul_float_def
      to_double_def)

lemma double_round_shape:
  assumes "q \<noteq> 0"
  shows "\<exists>m p. double_round q = of_int m * pow2 p \<and> \<bar>m\<bar> \<le> 2 ^ 53 \<and> - 1074 \<le> p
           \<and> p = max (ilog2 \<bar>q\<bar> - 52) (- 1074)"
proof -
  have qpos: "0 < \<bar>q\<bar>" using assms by simp
  define e where "e = ilog2 \<bar>q\<bar>"
  define p where "p = max (e - 52) (- 1074)"
  define m where "m = round_half_even (q / pow2 p)"
  have hi: "\<bar>q\<bar> < pow2 (e + 1)" using ilog2_bounds [OF qpos] by (simp add: e_def)
  have P: "0 < pow2 p" by (rule pow2_pos)
  have "\<bar>q / pow2 p\<bar> = \<bar>q\<bar> / pow2 p" using P by simp
  also have "\<dots> < pow2 (e + 1) / pow2 p" using hi P by (simp add: divide_strict_right_mono)
  also have "\<dots> = pow2 (e + 1 - p)" by (simp add: pow2_diff)
  also have "\<dots> \<le> pow2 53" by (rule pow2_mono) (simp add: p_def)
  finally have y: "\<bar>q / pow2 p\<bar> < 2 ^ 53" by (simp add: pow2_def)
  have "\<bar>of_int m - q / pow2 p\<bar> \<le> 1 / 2" unfolding m_def by (rule round_half_even_error)
  with y have "\<bar>of_int m :: rat\<bar> < 2 ^ 53 + 1" by linarith
  then have "(of_int \<bar>m\<bar> :: rat) < of_int (2 ^ 53 + 1)" by simp
  then have "\<bar>m\<bar> < 2 ^ 53 + 1" by (simp only: of_int_less_iff)
  then have mb: "\<bar>m\<bar> \<le> 2 ^ 53" by simp
  have "double_round q = of_int m * pow2 p"
    using assms by (simp add: double_round_def Let_def m_def p_def e_def)
  with mb show ?thesis by (auto simp: p_def e_def)
qed

lemma double_round_idem: "double_round (double_round q) = double_round q"
proof (cases "q = 0")
  case True
  then show ?thesis by simp
next
  case False
  from double_round_shape [OF False] obtain m p where
    dr: "double_round q = of_int m * pow2 p" and mb: "\<bar>m\<bar> \<le> 2 ^ 53" and p: "- 1074 \<le> p"
    by blast
  show ?thesis
  proof (cases "\<bar>m\<bar> < 2 ^ 53")
    case True
    then show ?thesis unfolding dr using p by (rule double_round_exact)
  next
    case False
    with mb have "m = 2 ^ 53 \<or> m = - (2 ^ 53)" by auto
    then have "of_int m * pow2 p = of_int (m div 2) * pow2 (p + 1)"
      by (auto simp: pow2_add) (simp_all add: pow2_def)
    moreover have "double_round (of_int (m div 2) * pow2 (p + 1)) = of_int (m div 2) * pow2 (p + 1)"
      using \<open>m = 2 ^ 53 \<or> m = - (2 ^ 53)\<close> p by (intro double_round_exact) auto
    ultimately show ?thesis by (simp add: dr)
  qed
qed

lemma double_round_int_valued:
  assumes "pow2 52 \<le> \<bar>q\<bar>"
  shows "\<exists>A. double_round q = of_int A"
proof -
  have qpos: "0 < \<bar>q\<bar>" using assms pow2_pos [of 52] by linarith
  then have q0: "q \<noteq> 0" by auto
  from double_round_shape [OF q0] obtain m p where
    dr: "double_round q = of_int m * pow2 p" and p: "p = max (ilog2 \<bar>q\<bar> - 52) (- 1074)"
    by blast
  have "\<bar>q\<bar> < pow2 (ilog2 \<bar>q\<bar> + 1)" using ilog2_bounds [OF qpos] by simp
  with assms have "pow2 52 < pow2 (ilog2 \<bar>q\<bar> + 1)" by linarith
  then have "52 < ilog2 \<bar>q\<bar> + 1" by (rule pow2_less_cancel)
  then have "0 \<le> p" by (simp add: p)
  then have "pow2 p = of_int (2 ^ nat p)" by (simp add: pow2_def)
  then have "double_round q = of_int (m * 2 ^ nat p)" by (simp add: dr)
  then show ?thesis by blast
qed

lemma double_round_half:
  assumes "\<bar>q\<bar> < pow2 53"
  shows "\<bar>double_round q - q\<bar> \<le> 1 / 2"
proof (cases "q = 0")
  case True
  then show ?thesis by simp
next
  case False
  then have qpos: "0 < \<bar>q\<bar>" by simp
  have "pow2 (ilog2 \<bar>q\<bar>) \<le> \<bar>q\<bar>" using ilog2_bounds [OF qpos] by simp
  with assms have "pow2 (ilog2 \<bar>q\<bar>) < pow2 53" by linarith
  then have "ilog2 \<bar>q\<bar> < 53" by (rule pow2_less_cancel)
  then have "max (ilog2 \<bar>q\<bar> - 52) (- 1074) - 1 \<le> - 1" by simp
  then have "pow2 (max (ilog2 \<bar>q\<bar> - 52) (- 1074) - 1) \<le> pow2 (- 1)" by (rule pow2_mono)
  also have "\<dots> = 1 / 2" by (simp add: pow2_def)
  finally show ?thesis using double_round_quantum_error [OF False] by linarith
qed

lemma factor_shape_wide:
  assumes "0 < t" "0 < n" "n \<le> 2 ^ 53"
  shows "\<exists>d. double_round (of_int t / of_int n) = of_int t / of_int n * (1 + d)
           \<and> \<bar>d\<bar> \<le> 1 / 2 ^ 53"
proof -
  have tpos: "(1::rat) \<le> of_int t" and npos: "(1::rat) \<le> of_int n" using assms by simp_all
  have "(of_int n :: rat) \<le> of_int (2 ^ 53)" using assms(3) by (simp only: of_int_le_iff)
  then have nle: "(of_int n :: rat) \<le> 2 ^ 53" by simp
  have "pow2 (- 1022) \<le> pow2 (- 53)" by (rule pow2_mono) simp
  also have "\<dots> = 1 / 2 ^ 53" by (simp add: pow2_def)
  also have "\<dots> \<le> 1 / of_int n" using nle npos by (intro divide_left_mono) auto
  also have "\<dots> \<le> of_int t / of_int n" using tpos npos by (simp add: divide_right_mono)
  finally have "pow2 (- 1022) \<le> \<bar>of_int t / of_int n :: rat\<bar>" by linarith
  then show ?thesis by (rule double_round_factor)
qed


lemma round_trip_axis:
  assumes "0 < t" "t \<le> 2048" "0 < n" "n < 2 ^ 53" "100 * t \<le> 143 * n" "0 \<le> x" "x \<le> n"
  shows "\<exists>x' x''. scale_up x (double_round (of_int t / of_int n)) = Inr x'
      \<and> scale_down x' (double_round (of_int t / of_int n)) = Inr x'' \<and> \<bar>x'' - x\<bar> \<le> 1"
proof (cases "x = 0")
  case True
  have "n \<le> 2 ^ 53" using assms(4) by simp
  from factor_shape_wide [OF assms(1,3) this] obtain d where
    f: "double_round (of_int t / of_int n) = of_int t / of_int n * (1 + d)"
    and d: "\<bar>d\<bar> \<le> 1 / 2 ^ 53" by blast
  have "(1 :: rat) / 2 ^ 53 \<le> 1 / 2" by simp
  with d have "0 < 1 + d" by linarith
  moreover have "(0::rat) < of_int t / of_int n" using assms(1,3) by simp
  ultimately have "double_round (of_int t / of_int n) \<noteq> 0"
    using assms(1,3) unfolding f by simp
  from scale_zero(1) [OF this] scale_zero(2) show ?thesis using True by force
next
  case False
  define T :: rat where "T = of_int t"
  define N :: rat where "N = of_int n"
  define X :: rat where "X = of_int x"
  define u :: rat where "u = 1 / 2 ^ 53"
  define f :: rat where "f = double_round (T / N)"
  have T: "1 \<le> T" "T \<le> 2048" and N: "1 \<le> N" using assms by (simp_all add: T_def N_def)
  have "n \<le> 2 ^ 53 - 1" using assms(4) by simp
  then have "(of_int n :: rat) \<le> of_int (2 ^ 53 - 1)" by (simp only: of_int_le_iff)
  then have Nle: "N \<le> 2 ^ 53 - 1" by (simp add: N_def)
  have "(of_int (100 * t) :: rat) \<le> of_int (143 * n)" using assms(5) by (simp only: of_int_le_iff)
  then have TN: "100 * T \<le> 143 * N" by (simp add: T_def N_def)
  have "1 \<le> x" using False assms(6) by simp
  then have X1: "1 \<le> X" by (simp add: X_def)
  have XN: "X \<le> N" using assms(7) by (simp add: X_def N_def)
  have u: "0 < u" "u \<le> 1 / 1000" by (simp_all add: u_def)
  have "n \<le> 2 ^ 53" using assms(4) by simp
  from factor_shape_wide [OF assms(1,3) this] obtain d where
    f: "f = T / N * (1 + d)" and d: "\<bar>d\<bar> \<le> u" by (auto simp: f_def T_def N_def u_def)
  have d1: "1 / 2 \<le> 1 + d" "1 + d \<le> 144 / 143" using d u by linarith+
  have fpos: "0 < f" unfolding f using T N d1 by (intro mult_pos_pos divide_pos_pos) linarith+
  have "T / N \<le> (143 / 100 * N) / N" using TN N by (intro divide_right_mono) auto
  then have c: "T / N \<le> 143 / 100" using N by simp
  have c0: "0 \<le> T / N" using T N by simp
  have "f \<le> 143 / 100 * (144 / 143)" unfolding f using c c0 d1 by (intro mult_mono) auto
  then have fle: "f \<le> 144 / 100" by simp
  have "f * N = T * (1 + d)" using N by (simp add: f)
  also have "\<dots> \<le> 2048 * 2" using T d1 by (intro mult_mono) auto
  finally have fN: "f * N \<le> 4096" by simp
  have "1 * (1 / 2) \<le> T * (1 + d)" using T d1 by (intro mult_mono) auto
  also have "T * (1 + d) = f * N" using N by (simp add: f)
  finally have fN2: "1 \<le> f * (2 * N)" by simp
  \<comment> \<open>the first mapping\<close>
  have "\<bar>x\<bar> < 2 ^ 53" using assms(4,6,7) by simp
  then have fx: "float_of_int x = Inr X" unfolding X_def by (rule float_of_int_exact)
  define z where "z = X / f"
  have zf: "z * f = X" using fpos by (simp add: z_def)
  have zpos: "0 < z" using fpos X1 by (simp add: z_def)
  have "X * 1 \<le> X * (f * (2 * N))" using X1 fN2 by (intro mult_left_mono) auto
  then have "X \<le> (X * (2 * N)) * f" by (simp add: mult_ac)
  then have "z \<le> X * (2 * N)" using fpos by (simp add: z_def pos_divide_le_eq)
  also have "\<dots> \<le> 2 ^ 53 * (2 * 2 ^ 53)" using X1 XN N Nle by (intro mult_mono) auto
  also have "\<dots> = pow2 107" by (simp add: pow2_def)
  finally have zb: "z \<le> pow2 107" .
  have p107: "pow2 107 \<le> pow2 1023" "pow2 107 + pow2 107 \<le> pow2 1023"
  proof -
    show "pow2 107 \<le> pow2 1023" by (rule pow2_mono) simp
    have "pow2 107 + pow2 107 = pow2 108" using pow2_add [of 107 1] by (simp add: pow2_def)
    also have "\<dots> \<le> pow2 1023" by (rule pow2_mono) simp
    finally show "pow2 107 + pow2 107 \<le> pow2 1023" .
  qed
  have "\<bar>z\<bar> \<le> pow2 1023" using zb zpos p107 by linarith
  then have fin: "to_double z = Finite (double_round z)" by (rule to_double_finite)
  have "z * f \<le> z * (144 / 100)" using zpos fle by (intro mult_left_mono) auto
  then have zlo: "1 / 4 \<le> z" using X1 zf by linarith
  then have znorm: "pow2 (- 1022) \<le> \<bar>z\<bar>" using pow2_m1022_le(2) by linarith
  define a where "a = double_round z"
  have "pow2 (- 53) = u" by (simp add: pow2_def u_def)
  with double_round_rel [OF znorm] zpos have rel: "\<bar>a - z\<bar> \<le> z * u" by (simp add: a_def)
  define x' where "x' = round_half_even a"
  have run1: "scale_up x f = Inr x'"
    using fpos by (simp add: scale_up_def int_div_float_def fx z_def [symmetric] fin x'_def a_def)
  have rerr: "\<bar>of_int x' - a\<bar> \<le> 1 / 2" unfolding x'_def by (rule round_half_even_error)
  have "X * u \<le> (2 ^ 53 - 1) * u" using XN Nle u by (intro mult_right_mono) auto
  also have "\<dots> < 1" by (simp add: u_def)
  finally have Xu: "X * u < 1" .
  \<comment> \<open>the second mapping\<close>
  have second: "\<exists>x''. scale_down x' f = Inr x'' \<and> \<bar>of_int x'' - X\<bar> < 2"
  proof (cases "pow2 52 \<le> z")
    case True
    then have "pow2 52 \<le> \<bar>z\<bar>" by simp
    from double_round_int_valued [OF this] obtain A where A: "a = of_int A"
      by (auto simp: a_def)
    have xA: "of_int x' = a" by (simp add: x'_def A)
    have idem: "double_round a = a" unfolding a_def by (rule double_round_idem)
    have "z * u \<le> z * 1" using zpos u by (intro mult_left_mono) auto
    with rel zb p107 zpos have "\<bar>a\<bar> \<le> pow2 1023" by linarith
    then have "to_double a = Finite a" using idem by (simp add: to_double_finite)
    then have fl: "float_of_int x' = Inr a" by (simp add: float_of_int_def xA)
    define P where "P = a * f"
    have "P - X = (a - z) * f" by (simp add: P_def zf [symmetric] algebra_simps)
    then have "\<bar>P - X\<bar> = \<bar>a - z\<bar> * f" using fpos by (simp add: abs_mult)
    also have "\<dots> \<le> (z * u) * f" using rel fpos by (intro mult_right_mono) auto
    also have "\<dots> = X * u" by (simp add: zf [symmetric] mult_ac)
    finally have PX: "\<bar>P - X\<bar> \<le> X * u" .
    have Pb: "\<bar>P\<bar> < 2 ^ 53" using PX Xu X1 XN Nle by linarith
    then have "\<bar>P\<bar> < pow2 53" by (simp add: pow2_def)
    then have half: "\<bar>double_round P - P\<bar> \<le> 1 / 2" by (rule double_round_half)
    have "\<bar>P\<bar> \<le> pow2 1023" using Pb pow2_1023_ge by linarith
    then have finP: "to_double (a * f) = Finite (double_round (a * f))"
      unfolding P_def by (rule to_double_finite)
    have run2: "scale_down x' f = Inr (round_half_even (double_round P))"
      by (simp add: scale_down_def int_mul_float_def fl finP P_def)
    have "\<bar>of_int (round_half_even (double_round P)) - double_round P\<bar> \<le> 1 / 2"
      by (rule round_half_even_error)
    with half PX Xu have "\<bar>of_int (round_half_even (double_round P)) - X\<bar> < 2" by linarith
    with run2 show ?thesis by blast
  next
    case False
    then have "z * u < pow2 52 * u" using u by (intro mult_strict_right_mono) auto
    also have "pow2 52 * u = 1 / 2" by (simp add: pow2_def u_def)
    finally have az: "\<bar>a - z\<bar> < 1 / 2" using rel by linarith
    have xz: "\<bar>of_int x' - z\<bar> \<le> 1" using az rerr by linarith
    have z52: "z < 2 ^ 52" using False by (simp add: pow2_def)
    have "\<bar>of_int x' :: rat\<bar> < 2 ^ 52 + 1" using xz z52 zpos by linarith
    then have "(of_int \<bar>x'\<bar> :: rat) < of_int (2 ^ 53)" by simp
    then have "\<bar>x'\<bar> < 2 ^ 53" by (simp only: of_int_less_iff)
    then have fl: "float_of_int x' = Inr (of_int x')" by (rule float_of_int_exact)
    define P where "P = (of_int x' :: rat) * f"
    have "P - X = (of_int x' - z) * f" by (simp add: P_def zf [symmetric] algebra_simps)
    then have "\<bar>P - X\<bar> = \<bar>of_int x' - z\<bar> * f" using fpos by (simp add: abs_mult)
    also have "\<dots> \<le> 1 * (144 / 100)" using xz fle fpos by (intro mult_mono) auto
    finally have PX: "\<bar>P - X\<bar> \<le> 144 / 100" by simp
    have "f * X \<le> f * N" using XN fpos by (intro mult_left_mono) auto
    with fN have fX: "f * X \<le> 4096" by linarith
    have "X * X = z * (f * X)" by (simp add: zf [symmetric] mult_ac)
    also have "\<dots> \<le> z * 4096" using fX zpos by (intro mult_left_mono) auto
    also have "\<dots> < 2 ^ 52 * 4096" using z52 by simp
    finally have XX: "X * X < 2 ^ 32 * 2 ^ 32" by simp
    have X32: "X < 2 ^ 32"
    proof (rule ccontr)
      assume "\<not> X < 2 ^ 32"
      then have "2 ^ 32 \<le> X" by simp
      then have "2 ^ 32 * 2 ^ 32 \<le> X * X" by (intro mult_mono) auto
      with XX show False by simp
    qed
    have Pb: "\<bar>P\<bar> \<le> 2 ^ 32 + 2" using PX X32 X1 by linarith
    have "(\<bar>P\<bar> + 1) / 2 ^ 53 \<le> (2 ^ 32 + 2 + 1) / 2 ^ 53"
      using Pb by (intro divide_right_mono) auto
    also have "\<dots> \<le> 1 / 100" by simp
    finally have small: "\<bar>double_round P - P\<bar> \<le> 1 / 100"
      using double_round_weak [of P] by linarith
    have "(2 ^ 32 + 2 :: rat) \<le> 2 ^ 53" by simp
    then have "\<bar>P\<bar> \<le> pow2 1023" using Pb pow2_1023_ge by linarith
    then have finP: "to_double (of_int x' * f) = Finite (double_round (of_int x' * f))"
      unfolding P_def by (rule to_double_finite)
    have run2: "scale_down x' f = Inr (round_half_even (double_round P))"
      by (simp add: scale_down_def int_mul_float_def fl finP P_def)
    have "\<bar>of_int (round_half_even (double_round P)) - double_round P\<bar> \<le> 1 / 2"
      by (rule round_half_even_error)
    with small PX have "\<bar>of_int (round_half_even (double_round P)) - X\<bar> < 2" by linarith
    with run2 show ?thesis by blast
  qed
  then obtain x'' where run2: "scale_down x' f = Inr x''" and near: "\<bar>of_int x'' - X\<bar> < 2"
    by blast
  from near have "\<bar>(of_int (x'' - x) :: rat)\<bar> < of_int 2" by (simp add: X_def)
  then have "(of_int \<bar>x'' - x\<bar> :: rat) < of_int 2" by (simp only: of_int_abs)
  then have "\<bar>x'' - x\<bar> < 2" by (simp only: of_int_less_iff)
  then have "\<bar>x'' - x\<bar> \<le> 1" by simp
  with run1 run2 show ?thesis by (auto simp: f_def T_def N_def)
qed

text \<open>
  C1 (amended).  When a target is selected and the configured width is below \<open>2^53\<close>,
  then for every pair with \<open>0 \<le> x \<le> width\<close> and \<open>0 \<le> y \<le> height\<close> the mapping with
  source \<open>API\<close> returns a pair, the mapping with source \<open>COMPUTER\<close> applied to that pair
  returns a pair, and the result differs from \<open>(x, y)\<close> by at most 1 on each axis.
\<close>

theorem round_trip_within_one:
  assumes "select_target self = Inr (Some t)" "width self < 2 ^ 53"
    and "0 \<le> x" "x \<le> width self" "0 \<le> y" "y \<le> height self"
  shows "\<exists>x' y' x'' y''. scale_coordinates self API x y = Inr (x', y')
      \<and> scale_coordinates self COMPUTER x' y' = Inr (x'', y'')
      \<and> \<bar>x'' - x\<bar> \<le> 1 \<and> \<bar>y'' - y\<bar> \<le> 1"
proof (cases "scaling_enabled self")
  case False
  then have "scale_coordinates self API x y = Inr (x, y)"
    "scale_coordinates self COMPUTER x y = Inr (x, y)"
    by (simp_all add: scale_coordinates_def)
  then show ?thesis by force
next
  case True
  define fx where "fx = double_round (of_int (res_width t) / of_int (width self))"
  define fy where "fy = double_round (of_int (res_height t) / of_int (height self))"
  note g = selected_geometry [OF assms(1)]
  note unfold = scale_coordinates_selected [OF True assms(1) selected_factors [OF assms(1)],
      folded fx_def fy_def]
  have wpos: "0 < width self" using g by linarith
  have hb: "height self < 2 ^ 53" using g(2) assms(2) by linarith
  have tw: "100 * res_width t \<le> 143 * width self" using g(4) wpos by linarith
  from round_trip_axis [of "res_width t" "width self" x] g wpos assms tw
  obtain x' x'' where x: "scale_up x fx = Inr x'" "scale_down x' fx = Inr x''" "\<bar>x'' - x\<bar> \<le> 1"
    unfolding fx_def by force
  from round_trip_axis [of "res_height t" "height self" y] g hb assms
  obtain y' y'' where y: "scale_up y fy = Inr y'" "scale_down y' fy = Inr y''" "\<bar>y'' - y\<bar> \<le> 1"
    unfolding fy_def by force
  have "scale_coordinates self API x y = Inr (x', y')"
    using assms(4,6) by (simp add: unfold(2) x y)
  moreover have "scale_coordinates self COMPUTER x' y' = Inr (x'', y'')"
    by (simp add: unfold(1) x y)
  ultimately show ?thesis using x(3) y(3) by blast
qed

theorem round_trip_within_one_witness:
  "select_target scaled_tool = Inr (Some (Resolution 1024 768)) \<and> width scaled_tool < 2 ^ 53
   \<and> (0::int) \<le> 101 \<and> 101 \<le> width scaled_tool \<and> (0::int) \<le> 7 \<and> 7 \<le> height scaled_tool
   \<and> (\<exists>x' y' x'' y''. scale_coordinates scaled_tool API 101 7 = Inr (x', y')
      \<and> scale_coordinates scaled_tool COMPUTER x' y' = Inr (x'', y'')
      \<and> \<bar>x'' - 101\<bar> \<le> 1 \<and> \<bar>y'' - 7\<bar> \<le> 1)
   \<and> scale_coordinates scaled_tool API 101 7 = Inr (202, 14)
   \<and> scale_coordinates scaled_tool COMPUTER 202 14 = Inr (101, 7)"
proof -
  have a: "select_target scaled_tool = Inr (Some (Resolution 1024 768))" by (rule select_scaled_tool)
  have b: "width scaled_tool < 2 ^ 53" "(0::int) \<le> 101" "101 \<le> width scaled_tool"
    "(0::int) \<le> 7" "7 \<le> height scaled_tool"
    by (simp_all add: scaled_tool_fields)
  have c: "scale_coordinates scaled_tool API 101 7 = Inr (202, 14)"
    using scaled_tool_api [of 101 7] by simp
  have d: "scale_coordinates scaled_tool COMPUTER 202 14 = Inr (101, 7)"
    using scaled_tool_computer [of 202 14] by simp
  from round_trip_within_one [OF a b] a b c d show ?thesis by blast
qed

lemma wide_tool_fields:
  "width wide_tool = 12738817945577668" "height wide_tool = 9554113459183251"
  "scaling_enabled wide_tool"
  by (simp_all add: wide_tool_def)

lemma select_wide_tool: "select_target wide_tool = Inr (Some (Resolution 1024 768))"
  by (rule select_target_XGA) (simp_all add: wide_tool_fields)

lemma wide_tool_factor:
  "double_round (1024 / 12738817945577668) = 6368694392305933 / 2 ^ 96"
proof -
  have "double_round (1024 / 12738817945577668) =
    of_int (round_half_even ((1024 / 12738817945577668) / pow2 (max (- 44 - 52) (- 1074))))
      * pow2 (max (- 44 - 52) (- 1074))"
    by (rule double_round_eval) (simp_all add: pow2_def)
  also have "\<dots> = 6368694392305933 / 2 ^ 96"
    by (simp add: pow2_def round_half_even_def Let_def)
  finally show ?thesis .
qed

lemma wide_tool_factors:
  "int_truediv 1024 12738817945577668 = Inr (6368694392305933 / 2 ^ 96)"
  "int_truediv 768 9554113459183251 = Inr (6368694392305933 / 2 ^ 96)"
proof -
  show "int_truediv 1024 12738817945577668 = Inr (6368694392305933 / 2 ^ 96)"
    using factor_ok [of 1024 12738817945577668] wide_tool_factor by simp
  show "int_truediv 768 9554113459183251 = Inr (6368694392305933 / 2 ^ 96)"
    using factor_ok [of 768 9554113459183251] wide_tool_factor by simp
qed

lemma to_double_exact:
  assumes "\<bar>m\<bar> < 2 ^ 53" "- 1074 \<le> k" "k \<le> 970"
  shows "to_double (of_int m * pow2 k) = Finite (of_int m * pow2 k)"
proof -
  have "(of_int \<bar>m\<bar> :: rat) \<le> of_int (2 ^ 53)" using assms(1) by (simp only: of_int_le_iff)
  then have "\<bar>of_int m :: rat\<bar> \<le> pow2 53" by (simp add: pow2_def)
  moreover have "pow2 k \<le> pow2 970" using assms(3) by (rule pow2_mono)
  ultimately have "\<bar>of_int m :: rat\<bar> * pow2 k \<le> pow2 53 * pow2 970"
    using pow2_pos [of k] by (intro mult_mono) auto
  also have "\<dots> = pow2 1023" by (simp add: pow2_add [symmetric])
  finally have "\<bar>of_int m * pow2 k\<bar> \<le> pow2 1023" using pow2_pos [of k] by (simp add: abs_mult)
  then show ?thesis using double_round_exact [OF assms(1,2)] by (simp add: to_double_finite)
qed

lemma wide_tool_float:
  "float_of_int 12738511345158700 = Inr 12738511345158700"
  "float_of_int 158470289964504250603490246656 = Inr 158470289964504250603490246656"
proof -
  show "float_of_int 12738511345158700 = Inr 12738511345158700"
    using to_double_exact [of 6369255672579350 1] by (simp add: float_of_int_def pow2_def)
  show "float_of_int 158470289964504250603490246656 = Inr 158470289964504250603490246656"
    using to_double_exact [of 4503996534723008 45] by (simp add: float_of_int_def pow2_def)
qed

lemma wide_tool_up:
  "scale_up 12738511345158700 (6368694392305933 / 2 ^ 96) = Inr 158470289964504250603490246656"
proof -
  define z :: rat where "z = 12738511345158700 / (6368694392305933 / 2 ^ 96)"
  have "double_round z =
    of_int (round_half_even (z / pow2 (max (97 - 52) (- 1074)))) * pow2 (max (97 - 52) (- 1074))"
    by (rule double_round_eval) (simp_all add: z_def pow2_def)
  also have "\<dots> = 158470289964504250603490246656"
    by (simp add: z_def pow2_def round_half_even_def Let_def)
  finally have dr: "double_round z = 158470289964504250603490246656" .
  have "\<bar>z\<bar> \<le> 2 ^ 53 * 2 ^ 53" by (simp add: z_def)
  also have "\<dots> = pow2 106" by (simp add: pow2_def)
  also have "\<dots> \<le> pow2 1023" by (rule pow2_mono) simp
  finally have "to_double z = Finite 158470289964504250603490246656"
    using dr by (simp add: to_double_finite)
  then show ?thesis
    unfolding z_def by (simp add: scale_up_def int_div_float_def wide_tool_float)
qed

lemma wide_tool_down:
  "scale_down 158470289964504250603490246656 (6368694392305933 / 2 ^ 96) = Inr 12738511345158698"
proof -
  define P :: rat where "P = 158470289964504250603490246656 * (6368694392305933 / 2 ^ 96)"
  have "double_round P =
    of_int (round_half_even (P / pow2 (max (53 - 52) (- 1074)))) * pow2 (max (53 - 52) (- 1074))"
    by (rule double_round_eval) (simp_all add: P_def pow2_def)
  also have "\<dots> = 12738511345158698"
    by (simp add: P_def pow2_def round_half_even_def Let_def)
  finally have dr: "double_round P = 12738511345158698" .
  have "\<bar>P\<bar> \<le> 2 ^ 53 * 2 ^ 53" by (simp add: P_def)
  also have "\<dots> = pow2 106" by (simp add: pow2_def)
  also have "\<dots> \<le> pow2 1023" by (rule pow2_mono) simp
  finally have "to_double P = Finite 12738511345158698"
    using dr by (simp add: to_double_finite)
  then show ?thesis
    unfolding P_def by (simp add: scale_down_def int_mul_float_def wide_tool_float)
qed

text \<open>
  C1 as stated fails just beyond the 53 bits of a float's significand: on the tool of
  \<open>12738817945577668\<close> by \<open>9554113459183251\<close> pixels (ratio \<open>4/3\<close>, target XGA, both
  factors \<open>6368694392305933 / 2^96\<close>, width between \<open>2^53\<close> and \<open>2^54\<close>) the input
  \<open>x = 12738511345158700\<close> is an exact float, the first mapping returns
  \<open>158470289964504250603490246656\<close>, and the second returns \<open>12738511345158698\<close>, which
  is 2 away.
\<close>

theorem round_trip_counterexample:
  "scaling_enabled wide_tool \<and> select_target wide_tool = Inr (Some (Resolution 1024 768))
   \<and> (0::int) \<le> 12738511345158700 \<and> 12738511345158700 \<le> width wide_tool
   \<and> (0::int) \<le> 0 \<and> 0 \<le> height wide_tool
   \<and> scale_coordinates wide_tool API 12738511345158700 0
       = Inr (158470289964504250603490246656, 0)
   \<and> scale_coordinates wide_tool COMPUTER 158470289964504250603490246656 0
       = Inr (12738511345158698, 0)
   \<and> \<not> \<bar>12738511345158698 - 12738511345158700\<bar> \<le> (1::int)"
proof -
  have nz: "(6368694392305933 / 2 ^ 96 :: rat) \<noteq> 0" by simp
  have api: "scale_coordinates wide_tool API 12738511345158700 0
      = Inr (158470289964504250603490246656, 0)"
    using wide_tool_up scale_zero(1) [OF nz] wide_tool_factors
    by (simp add: scale_coordinates_def select_wide_tool wide_tool_fields)
  have comp: "scale_coordinates wide_tool COMPUTER 158470289964504250603490246656 0
      = Inr (12738511345158698, 0)"
    using wide_tool_down scale_zero(2) [of "6368694392305933 / 2 ^ 96"] wide_tool_factors
    by (simp add: scale_coordinates_def select_wide_tool wide_tool_fields)
  from api comp show ?thesis
    by (simp add: select_wide_tool wide_tool_fields)
qed

end
